theory Spec2Isabelle
  imports Main
begin

section \<open>JavaScript values used by script.js\<close>

text \<open>
  Indices, counters and limits of the script are JavaScript numbers that only ever hold
  integers; they are modelled as \<^typ>\<open>int\<close>. The remainder operator \<open>%\<close> of JavaScript
  truncates towards zero: the result takes the sign of the dividend, and on integers it is
  exact. (A zero result of a negative dividend is \<open>-0\<close> in JavaScript, which equals \<open>0\<close> and
  indexes an array like \<open>0\<close>; a zero divisor gives \<open>NaN\<close>, and every use below is guarded
  against it.)
\<close>

definition js_rem :: "int \<Rightarrow> int \<Rightarrow> int" where
  "js_rem a b = sgn a * (\<bar>a\<bar> mod \<bar>b\<bar>)"

text \<open>
  A JavaScript number is an IEEE double: it holds every integer up to \<open>2^53\<close> in
  magnitude, and beyond that only the multiples of a power of two that leave 53
  significant bits. The result of an addition is the double nearest to the exact sum, a
  tie going to the one whose last significant bit is 0. \<open>bit_length n\<close> is the number of
  binary digits of \<open>n\<close>, and \<open>nearest_double x\<close> the double nearest to the integer \<open>x\<close>.
  (Overflow to \<open>Infinity\<close> is left out: a double plus a number below \<open>2^32\<close> never gets
  there.)
\<close>

function bit_length :: "int \<Rightarrow> nat" where
  "bit_length n = (if n \<le> 0 then 0 else Suc (bit_length (n div 2)))"
  by pat_completeness auto
termination
  by (relation "measure (\<lambda>n. nat n)") auto

declare bit_length.simps [simp del]

definition nearest_double :: "int \<Rightarrow> int" where
  "nearest_double x =
     (if \<bar>x\<bar> \<le> 2 ^ 53 then x
      else
        let u = 2 ^ (bit_length \<bar>x\<bar> - 53);
            q = \<bar>x\<bar> div u;
            r = \<bar>x\<bar> mod u;
            m = (if 2 * r < u then q else if u < 2 * r then q + 1
                 else if even q then q else q + 1)
        in sgn x * (m * u))"

text \<open>
  \<open>i + images.length\<close> (line 172). The length of an array is below \<open>2^32\<close>; a longer list
  stands for no array, and for it the sum is left exact.
\<close>

definition plus_length :: "int \<Rightarrow> nat \<Rightarrow> int" where
  "plus_length i n = (if 2 ^ 32 \<le> n then i + int n else nearest_double (i + int n))"

text \<open>
  The elements of the arrays \<open>found\<close> and \<open>images\<close>: objects \<open>{ file, alt }\<close>
  (\<open>file\<close> is written \<open>file'\<close>).
\<close>

record probed =
  file' :: string
  alt :: string

text \<open>An entry of the catalog: \<open>{ id, name, folder }\<close> (\<open>id\<close> is written \<open>pid\<close> here).\<close>

record product =
  pid :: int
  name :: string
  folder :: string

section \<open>The per-card inline slider (createProductCard)\<close>

text \<open>
  The closure variables of one card (\<open>images\<close>, \<open>idx\<close>, \<open>interval\<close>, \<open>isPaused\<close>), the
  product name the closure captured, and the parts of the card's DOM the handlers write:
  the thumbnail's \<open>src\<close> and \<open>alt\<close>, the \<open>style.display\<close> of the two buttons and the hint
  text. \<open>interval\<close> is \<open>None\<close> for \<open>null\<close> and otherwise the handle \<open>setInterval\<close> returned (a
  positive number, hence truthy); \<open>timers\<close> counts the calls of \<open>setInterval\<close> the card has
  made.
\<close>

record card =
  cname :: string
  images :: "probed list"
  idx :: int
  interval :: "nat option"
  isPaused :: bool
  thumb_src :: string
  thumb_alt :: string
  prev_display :: string
  next_display :: string
  hint :: string
  timers :: nat

datatype error = TypeError

text \<open>
  \<open>showImage\<close>: line 172 adds the length to the argument, as doubles, and takes the
  remainder; line 173 reads \<open>images[idx].file\<close>; for an \<open>idx\<close> outside the array
  \<open>images[idx]\<close> is \<open>undefined\<close> and the property access throws a TypeError, after \<open>idx\<close>
  has been assigned. The error carries the state at the throw.
\<close>

definition showImage :: "int \<Rightarrow> card \<Rightarrow> (error \<times> card) + card" where
  "showImage i c =
     (if images c = [] then Inr c
      else
        let L = int (length (images c));
            c1 = c\<lparr>idx := js_rem (plus_length i (length (images c))) L\<rparr>
        in if idx c1 < 0 \<or> L \<le> idx c1 then Inl (TypeError, c1)
           else
             let im = images c1 ! nat (idx c1);
                 c2 = c1\<lparr>thumb_src := file' im,
                         thumb_alt := (if alt im = [] then cname c1 else alt im)\<rparr>
             in if 1 < L
                then Inr (c2\<lparr>prev_display := [], next_display := []\<rparr>)
                else Inr (c2\<lparr>prev_display := ''none'', next_display := ''none''\<rparr>))"

definition stopAuto :: "card \<Rightarrow> card" where
  "stopAuto c = (case interval c of None \<Rightarrow> c | Some h \<Rightarrow> c\<lparr>interval := None\<rparr>)"

definition startAuto :: "card \<Rightarrow> card" where
  "startAuto c =
     (let c1 = stopAuto c
      in if length (images c1) \<le> 1 then c1
         else c1\<lparr>interval := Some (Suc (timers c1)), timers := Suc (timers c1)\<rparr>)"

text \<open>
  An exception that leaves an event handler is reported by the browser and the handler is
  abandoned; the assignments made before the throw stay.
\<close>

fun settled :: "(error \<times> card) + card \<Rightarrow> card" where
  "settled (Inl (e, c)) = c"
| "settled (Inr c) = c"

datatype key = ArrowRight | ArrowLeft | Space | Enter | OtherKey

text \<open>
  The events a card reacts to: the clicks on its two buttons (which stop propagation, so
  the card's own click handler does not run for them), hover and focus, a key pressed
  while the card has focus, a click on the card, the completion of the background probe
  with the array it found, and a tick of the card's interval timer. The handlers compute
  \<open>idx - 1\<close>, \<open>idx + 1\<close> and \<open>(idx + 1) % images.length\<close> from an \<open>idx\<close> that \<open>showImage\<close> left
  below the length of an array, where these operations are exact.
\<close>

datatype event =
    PrevClick | NextClick
  | MouseEnter | MouseLeave | FocusIn | FocusOut
  | KeyDown key
  | CardClick
  | ProbeComplete "probed list"
  | Tick

fun step :: "event \<Rightarrow> card \<Rightarrow> card" where
  "step PrevClick c = settled (showImage (idx c - 1) c)"
| "step NextClick c = settled (showImage (idx c + 1) c)"
| "step MouseEnter c = c\<lparr>isPaused := True\<rparr>"
| "step MouseLeave c = c\<lparr>isPaused := False\<rparr>"
| "step FocusIn c = c\<lparr>isPaused := True\<rparr>"
| "step FocusOut c = c\<lparr>isPaused := False\<rparr>"
| "step (KeyDown ArrowRight) c = settled (showImage (idx c + 1) c)"
| "step (KeyDown ArrowLeft) c = settled (showImage (idx c - 1) c)"
| "step (KeyDown Space) c = c\<lparr>isPaused := \<not> isPaused c\<rparr>"
| "step (KeyDown Enter) c = c"
| "step (KeyDown OtherKey) c = c"
| "step CardClick c =
     (let c1 = c\<lparr>isPaused := \<not> isPaused c\<rparr>
      in if \<not> isPaused c1 \<and> interval c1 = None then startAuto c1 else c1)"
| "step (ProbeComplete fs) c =
     (if fs \<noteq> [] then
        (case showImage 0
                (c\<lparr>images := map (\<lambda>f. \<lparr>file' = file' f, alt = cname c\<rparr>) fs, hint := []\<rparr>) of
           Inl (e, c1) \<Rightarrow> c1
         | Inr c1 \<Rightarrow> startAuto c1)
      else c\<lparr>thumb_src := ''https://via.placeholder.com/600x400?text=No+Image'',
             hint := ''No images available''\<rparr>)"
| "step Tick c =
     (case interval c of
        None \<Rightarrow> c
      | Some h \<Rightarrow>
          if \<not> isPaused c
          then settled (showImage (js_rem (idx c + 1) (int (length (images c)))) c)
          else c)"

text \<open>
  The \<open>alt\<close> attribute of the markup is \<open>escapeHtml(name)\<close> between double quotes, set
  through \<open>innerHTML\<close>. The HTML parser reads the five entities of \<open>escapeHtml\<close> back as the
  characters they stand for; before that it turns a carriage return, with a line feed
  after it or alone, into one line feed, and in an attribute value it replaces the
  character U+0000 by U+FFFD (three bytes in UTF-8).
\<close>

fun parsed_attribute :: "string \<Rightarrow> string" where
  "parsed_attribute [] = []"
| "parsed_attribute [c] =
     (if c = CHR 0x0D then [CHR 0x0A]
      else if c = CHR 0x00 then [CHR 0xEF, CHR 0xBF, CHR 0xBD]
      else [c])"
| "parsed_attribute (c # d # cs) =
     (if c = CHR 0x0D \<and> d = CHR 0x0A then CHR 0x0A # parsed_attribute cs
      else if c = CHR 0x0D then CHR 0x0A # parsed_attribute (d # cs)
      else if c = CHR 0x00 then [CHR 0xEF, CHR 0xBF, CHR 0xBD] @ parsed_attribute (d # cs)
      else c # parsed_attribute (d # cs))"

text \<open>
  The state of a card as \<open>createProductCard\<close> leaves it: the placeholder image, both
  buttons with \<open>display:none\<close>, and the hint \<open>Images loading\<close> followed by the character
  U+2026 (three bytes in UTF-8).
\<close>

definition createProductCard :: "product \<Rightarrow> card" where
  "createProductCard p =
     \<lparr>cname = name p, images = [], idx = 0, interval = None, isPaused = False,
      thumb_src = ''https://via.placeholder.com/600x400?text=Loading'',
      thumb_alt = parsed_attribute (name p),
      prev_display = ''none'', next_display = ''none'',
      hint = ''Images loading'' @ [CHR 0xE2, CHR 0x80, CHR 0xA6],
      timers = 0\<rparr>"

text \<open>The card after a sequence of events, the first of the list first.\<close>

definition run :: "event list \<Rightarrow> card \<Rightarrow> card" where
  "run evs c = fold step evs c"

fun is_ProbeComplete :: "event \<Rightarrow> bool" where
  "is_ProbeComplete (ProbeComplete fs) = True"
| "is_ProbeComplete e = False"

section \<open>Image probing (probeImagesInFolder)\<close>

text \<open>The decimal digits a template literal writes for a number.\<close>

definition digit :: "nat \<Rightarrow> char" where
  "digit d = ''0123456789'' ! d"

function decimal :: "nat \<Rightarrow> string" where
  "decimal n = (if n < 10 then [digit n] else decimal (n div 10) @ [digit (n mod 10)])"
  by pat_completeness auto

termination
  by (relation "measure (\<lambda>n. n)") auto

declare decimal.simps [simp del]

definition toString :: "int \<Rightarrow> string" where
  "toString i = (if i < 0 then CHR ''-'' # decimal (nat (- i)) else decimal (nat i))"

text \<open>Line 82: the path \<open>Images/Products/${folder}/${idx}.${sfx}\<close>.\<close>

definition path_of :: "string \<Rightarrow> int \<Rightarrow> string \<Rightarrow> string" where
  "path_of fld i sfx = ''Images/Products/'' @ fld @ ''/'' @ toString i @ ''.'' @ sfx"

text \<open>
  The \<open>options\<close> object: a property that is absent is \<open>None\<close>. \<open>||\<close> takes its right
  operand when the left one is falsy: an absent property and the number 0 are falsy, an
  array (also the empty one) is truthy.
\<close>

record options =
  maxIndex :: "int option"
  missLimit :: "int option"
  suffixes :: "string list option"

definition MAX_INDEX :: "options \<Rightarrow> int" where
  "MAX_INDEX opts = (case maxIndex opts of None \<Rightarrow> 12 | Some v \<Rightarrow> if v = 0 then 12 else v)"

definition CONSECUTIVE_MISS_LIMIT :: "options \<Rightarrow> int" where
  "CONSECUTIVE_MISS_LIMIT opts =
     (case missLimit opts of None \<Rightarrow> 4 | Some v \<Rightarrow> if v = 0 then 4 else v)"

definition suffixes_of :: "options \<Rightarrow> string list" where
  "suffixes_of opts =
     (case suffixes opts of None \<Rightarrow> [''jpg'', ''jpeg'', ''png'', ''webp''] | Some l \<Rightarrow> l)"

text \<open>
  The browser, as far as the probe sees it: which paths load (\<open>onload\<close> fires) and which
  do not (\<open>onerror\<close> fires), and, for the images requested at one index, the order in
  which they settle, as a list of positions in the suffix array. A position that the
  list leaves out is a load that never settles; each image settles at most once.
\<close>

record env =
  loads :: "string \<Rightarrow> bool"
  order :: "int \<Rightarrow> nat list"

definition settling :: "env \<Rightarrow> nat \<Rightarrow> int \<Rightarrow> nat list" where
  "settling e n i = filter (\<lambda>p. p < n) (remdups (order e i))"

text \<open>
  What the probe does to the outside, in the order it does it: the assignment of
  \<open>img.src\<close> for an index and a suffix, the entry into an \<open>onload\<close> or \<open>onerror\<close> callback
  of that image, and the call of \<open>resolve\<close>.
\<close>

datatype io = Attempt int string | Onload int string | Onerror int string | Resolve "probed list"

text \<open>
  The variables of the promise executor (\<open>found\<close>, \<open>idx\<close> written \<open>index\<close>,
  \<open>consecutiveMisses\<close>), those of the running call of \<open>tryNext\<close> (\<open>loadedThisIndex\<close>,
  \<open>remaining\<close>), the number of calls of \<open>setTimeout(tryNext, 8)\<close> that have not fired yet,
  and the trace of what was done so far.
\<close>

record probing =
  found :: "probed list"
  index :: int
  consecutiveMisses :: int
  loadedThisIndex :: bool
  remaining :: int
  scheduled :: nat
  trace :: "io list"

datatype 'a promise = Pending | Resolved 'a | Rejected error

definition onload :: "string \<Rightarrow> probing \<Rightarrow> probing" where
  "onload path s =
     (let s1 = (if \<not> loadedThisIndex s
                then s\<lparr>loadedThisIndex := True,
                       found := found s @ [\<lparr>file' = path, alt = []\<rparr>],
                       consecutiveMisses := 0\<rparr>
                else s);
          s2 = s1\<lparr>remaining := remaining s1 - 1\<rparr>
      in if remaining s2 = 0
         then s2\<lparr>index := index s2 + 1, scheduled := Suc (scheduled s2)\<rparr>
         else s2)"

definition onerror :: "probing \<Rightarrow> probing" where
  "onerror s =
     (let s1 = s\<lparr>remaining := remaining s - 1\<rparr>
      in if remaining s1 = 0
         then (let s2 = (if \<not> loadedThisIndex s1
                         then s1\<lparr>consecutiveMisses := consecutiveMisses s1 + 1\<rparr>
                         else s1)
               in s2\<lparr>index := index s2 + 1, scheduled := Suc (scheduled s2)\<rparr>)
         else s1)"

text \<open>
  The image requested for index \<open>i\<close> and suffix \<open>sfx\<close> settles: the path was computed when
  the request was issued.
\<close>

definition settle :: "env \<Rightarrow> string \<Rightarrow> int \<Rightarrow> string \<Rightarrow> probing \<Rightarrow> probing" where
  "settle e fld i sfx s =
     (if loads e (path_of fld i sfx)
      then onload (path_of fld i sfx) (s\<lparr>trace := trace s @ [Onload i sfx]\<rparr>)
      else onerror (s\<lparr>trace := trace s @ [Onerror i sfx]\<rparr>))"

text \<open>
  One call of \<open>tryNext\<close> past the guard, up to the point where the event loop has
  nothing left to run for it: the two \<open>let\<close> of lines 78 and 79 and the requests of the
  \<open>forEach\<close>, which run to the end before any callback can (JavaScript runs one task at a
  time), then the callbacks of the requests that settle, in the order of the environment.
  A callback calls \<open>setTimeout(tryNext, 8)\<close> only when it brings \<open>remaining\<close> to 0, which
  only the last callback of a round in which every request settles does (lemmas
  \<open>fold_settle_early\<close> and \<open>fold_settle_complete\<close> below); so the call it schedules finds no
  callback of this round outstanding, and the rounds follow one another as written here.
\<close>

definition tryNext_round :: "env \<Rightarrow> string \<Rightarrow> string list \<Rightarrow> probing \<Rightarrow> probing" where
  "tryNext_round e fld sfxs s =
     fold (\<lambda>p. settle e fld (index s) (sfxs ! p))
       (settling e (length sfxs) (index s))
       (s\<lparr>loadedThisIndex := False, remaining := int (length sfxs),
          trace := trace s @ map (Attempt (index s)) sfxs\<rparr>)"

text \<open>
  \<open>tryNext\<close>, with the calls that \<open>setTimeout\<close> makes later written as the recursion: the
  guard of line 73, the round, line 107, and then the scheduled call if there is one. With
  no call scheduled nothing of the probe is left to run and the promise stays pending. The
  result is the state of the promise together with the final variables and trace.

  The recursion ends because every call of \<open>setTimeout(tryNext, 8)\<close> comes with one
  \<open>idx++\<close> and no callback takes a scheduled call back, while the guard stops the calls
  once \<open>idx\<close> is above \<open>MAX_INDEX\<close>.
\<close>

function tryNext :: "env \<Rightarrow> string \<Rightarrow> options \<Rightarrow> probing \<Rightarrow> probed list promise \<times> probing" where
  "tryNext e fld opts s =
     (if index s > MAX_INDEX opts \<or> consecutiveMisses s \<ge> CONSECUTIVE_MISS_LIMIT opts
      then (Resolved (found s), s\<lparr>trace := trace s @ [Resolve (found s)]\<rparr>)
      else
        let s1 = tryNext_round e fld (suffixes_of opts) s
        in if suffixes_of opts = []
           then (Resolved (found s1), s1\<lparr>trace := trace s1 @ [Resolve (found s1)]\<rparr>)
           else if scheduled s1 = 0 then (Pending, s1)
           else tryNext e fld opts (s1\<lparr>scheduled := scheduled s1 - 1\<rparr>))"
  by pat_completeness auto

termination
proof (relation "measures [\<lambda>(e, fld, opts, s). nat (MAX_INDEX opts + 1 - index s),
                            \<lambda>(e, fld, opts, s). scheduled s]", goal_cases)
  case 1
  show ?case by simp
next
  case (2 e fld opts s s1)
  have one: "scheduled t \<le> scheduled (settle e fld i sfx t) \<and>
      index (settle e fld i sfx t) = index t + int (scheduled (settle e fld i sfx t) - scheduled t)"
    for i sfx t
    by (simp add: settle_def onload_def onerror_def Let_def)
  have every: "scheduled t \<le> scheduled (fold (\<lambda>p. settle e fld i (sfxs ! p)) ps t) \<and>
      index (fold (\<lambda>p. settle e fld i (sfxs ! p)) ps t) =
        index t + int (scheduled (fold (\<lambda>p. settle e fld i (sfxs ! p)) ps t) - scheduled t)"
    for i sfxs ps t
  proof (induction ps arbitrary: t)
    case Nil
    show ?case by simp
  next
    case (Cons p ps)
    from one [where t = t and i = i and sfx = "sfxs ! p"]
      Cons.IH [of "settle e fld i (sfxs ! p) t"]
    show ?case by simp
  qed
  from every [where i = "index s" and sfxs = "suffixes_of opts"
      and ps = "settling e (length (suffixes_of opts)) (index s)"
      and t = "s\<lparr>loadedThisIndex := False, remaining := int (length (suffixes_of opts)),
                 trace := trace s @ map (Attempt (index s)) (suffixes_of opts)\<rparr>"] 2
  have "scheduled s \<le> scheduled s1 \<and> index s1 = index s + int (scheduled s1 - scheduled s)"
    by (simp add: tryNext_round_def)
  with 2 show ?case by (cases "scheduled s1 = scheduled s") auto
qed

declare tryNext.simps [simp del]

definition probeImagesInFolder :: "env \<Rightarrow> string \<Rightarrow> options \<Rightarrow> probed list promise \<times> probing" where
  "probeImagesInFolder e fld opts =
     tryNext e fld opts
       \<lparr>found = [], index = 1, consecutiveMisses = 0, loadedThisIndex = False,
        remaining = 0, scheduled = 0, trace = []\<rparr>"

section \<open>The product grid (loadProducts)\<close>

definition EMBEDDED_PRODUCTS :: "product list" where
  "EMBEDDED_PRODUCTS =
    [\<lparr>pid = 1, name = ''Baby Rockers'', folder = ''BabyRockers''\<rparr>,
     \<lparr>pid = 2, name = ''Bero'', folder = ''Bero''\<rparr>,
     \<lparr>pid = 3, name = ''Ceiling Fan'', folder = ''ceilingfan''\<rparr>,
     \<lparr>pid = 4, name = ''Chair'', folder = ''Chair''\<rparr>,
     \<lparr>pid = 5, name = ''Cooker'', folder = ''Cooker''\<rparr>,
     \<lparr>pid = 6, name = ''Cot'', folder = ''Cot''\<rparr>,
     \<lparr>pid = 7, name = ''Dressing Table'', folder = ''DressingTable''\<rparr>,
     \<lparr>pid = 8, name = ''Electric Rice Cooker'', folder = ''ElectricRiceCooker''\<rparr>,
     \<lparr>pid = 9, name = ''Gas Stove'', folder = ''GasStove''\<rparr>,
     \<lparr>pid = 10, name = ''House Hold Plastic Products'', folder = ''HouseHoldPlasticProducts''\<rparr>,
     \<lparr>pid = 11, name = ''Induction Stove'', folder = ''InductionStove''\<rparr>,
     \<lparr>pid = 12, name = ''Matress'', folder = ''Matress''\<rparr>,
     \<lparr>pid = 13, name = ''Mixer-Grinder'', folder = ''MixerGrinder''\<rparr>,
     \<lparr>pid = 14, name = ''Office Table'', folder = ''OfficeTable''\<rparr>,
     \<lparr>pid = 15, name = ''Pedestal Fan'', folder = ''PedestalFan''\<rparr>,
     \<lparr>pid = 16, name = ''Plastic Containers'', folder = ''PlasticContainers''\<rparr>,
     \<lparr>pid = 17, name = ''Pooja Rack'', folder = ''PoojaRack''\<rparr>,
     \<lparr>pid = 18, name = ''System Table'', folder = ''SystemTable''\<rparr>,
     \<lparr>pid = 19, name = ''Table Fan'', folder = ''TableFan''\<rparr>,
     \<lparr>pid = 20, name = ''Table Top Grinder'', folder = ''TableTopGrinder''\<rparr>,
     \<lparr>pid = 21, name = ''Wire Cot'', folder = ''WireCot''\<rparr>]"

text \<open>
  What \<open>fetch('products.json')\<close> comes to: the request fails, or a response arrives with
  its status and its body, which \<open>r.json()\<close> parses (\<open>None\<close>: the body is not JSON). Of the
  JSON values only \<open>null\<close> and an array of products are modelled.
\<close>

datatype json = JNull | JArray "product list"

datatype fetched = NetworkError | Response nat "json option"

text \<open>\<open>safeFetchJson\<close>: \<open>r.ok\<close> is a status from 200 to 299; every failure is caught and gives \<open>null\<close>.\<close>

definition safeFetchJson :: "fetched \<Rightarrow> json" where
  "safeFetchJson f =
     (case f of
        NetworkError \<Rightarrow> JNull
      | Response status body \<Rightarrow>
          if \<not> (200 \<le> status \<and> status \<le> 299) then JNull
          else (case body of None \<Rightarrow> JNull | Some j \<Rightarrow> j))"

text \<open>The children of the element \<open>productGrid\<close>: product cards, or the paragraph of the notice.\<close>

datatype node = CardNode card | Paragraph string

text \<open>
  \<open>loadProducts\<close> on the container (\<open>None\<close>: the page has no element \<open>productGrid\<close>), up
  to the end of the \<open>forEach\<close> that appends the cards. The probes the cards start finish
  in later turns of the event loop.
\<close>

definition loadProducts :: "node list option \<Rightarrow> fetched \<Rightarrow> node list option" where
  "loadProducts productGrid f =
     (case productGrid of
        None \<Rightarrow> None
      | Some children \<Rightarrow>
          let products = (case safeFetchJson f of JNull \<Rightarrow> EMBEDDED_PRODUCTS | JArray ps \<Rightarrow> ps)
          in if products = [] then Some [Paragraph ''Unable to load products.'']
             else Some (map (\<lambda>p. CardNode (createProductCard p)) products))"

section \<open>Predicates and examples for the statements\<close>

subsection \<open>The slider\<close>

text \<open>The invariant of the card state: the index is within the images, when there are any.\<close>

definition index_in_range :: "card \<Rightarrow> bool" where
  "index_in_range c = (images c \<noteq> [] \<longrightarrow> 0 \<le> idx c \<and> idx c < int (length (images c)))"

text \<open>
  A card with at most one image that has never started a timer and shows no buttons; and
  a card with \<open>n\<close> images whose timer is set, whose buttons are shown and whose index is
  within the images.
\<close>

definition still :: "card \<Rightarrow> bool" where
  "still c = (length (images c) \<le> 1 \<and> interval c = None \<and> timers c = 0 \<and>
              prev_display c = ''none'' \<and> next_display c = ''none'')"

definition playing :: "nat \<Rightarrow> card \<Rightarrow> bool" where
  "playing n c = (length (images c) = n \<and> interval c \<noteq> None \<and>
                  prev_display c = [] \<and> next_display c = [] \<and>
                  0 \<le> idx c \<and> idx c < int n)"

text \<open>
  Examples: the fourth product of the embedded list, the entries a probe of its folder
  finds, and its card after a probe that found three images: index 0, timer started.
\<close>

definition chair :: product where
  "chair = \<lparr>pid = 4, name = ''Chair'', folder = ''Chair''\<rparr>"

definition pic :: "nat \<Rightarrow> probed" where
  "pic n = \<lparr>file' = ''Images/Products/Chair/'' @ [digit n] @ ''.jpg'', alt = []\<rparr>"

definition three :: card where
  "three = run [ProbeComplete [pic 1, pic 2, pic 3]] (createProductCard chair)"

subsection \<open>One round of the probe\<close>

text \<open>
  For a round at index \<open>i\<close>: the event that a settling position leaves in the trace, the
  positions of a list whose image loads, and what the first of them pushes to \<open>found\<close>.
\<close>

definition outcome :: "env \<Rightarrow> string \<Rightarrow> string list \<Rightarrow> int \<Rightarrow> nat \<Rightarrow> io" where
  "outcome e fld sfxs i p =
     (if loads e (path_of fld i (sfxs ! p)) then Onload i (sfxs ! p) else Onerror i (sfxs ! p))"

definition hits :: "env \<Rightarrow> string \<Rightarrow> string list \<Rightarrow> int \<Rightarrow> nat list \<Rightarrow> nat list" where
  "hits e fld sfxs i ps = filter (\<lambda>p. loads e (path_of fld i (sfxs ! p))) ps"

definition winner :: "string \<Rightarrow> string list \<Rightarrow> int \<Rightarrow> nat list \<Rightarrow> probed list" where
  "winner fld sfxs i hs =
     (case hs of [] \<Rightarrow> [] | p # ps \<Rightarrow> [\<lparr>file' = path_of fld i (sfxs ! p), alt = []\<rparr>])"

text \<open>
  The guard of line 73; a round in which every request settles; the state in which the
  scheduled \<open>tryNext\<close> then starts; and the variables of the promise executor at the first
  call of \<open>tryNext\<close>.
\<close>

definition stops :: "options \<Rightarrow> probing \<Rightarrow> bool" where
  "stops opts s =
     (index s > MAX_INDEX opts \<or> consecutiveMisses s \<ge> CONSECUTIVE_MISS_LIMIT opts)"

definition complete :: "env \<Rightarrow> options \<Rightarrow> probing \<Rightarrow> bool" where
  "complete e opts s =
     (length (settling e (length (suffixes_of opts)) (index s)) = length (suffixes_of opts))"

definition nxt :: "env \<Rightarrow> string \<Rightarrow> options \<Rightarrow> probing \<Rightarrow> probing" where
  "nxt e fld opts s = (tryNext_round e fld (suffixes_of opts) s)\<lparr>scheduled := scheduled s\<rparr>"

definition start :: probing where
  "start = \<lparr>found = [], index = 1, consecutiveMisses = 0, loadedThisIndex = False,
            remaining = 0, scheduled = 0, trace = []\<rparr>"

subsection \<open>Folders and environments\<close>

text \<open>
  An image exists at index \<open>i\<close> when one of the candidate paths of that index loads;
  images exist exactly up to \<open>k\<close> when they exist at the indices 1 to \<open>k\<close> and at no higher
  index. Every request settles when the order of every index names every position of the
  suffix array. An entry of \<open>found\<close> is a hit of index \<open>i\<close> when it is the object pushed for
  a path of that index that loads.
\<close>

definition exists_at :: "env \<Rightarrow> string \<Rightarrow> string list \<Rightarrow> int \<Rightarrow> bool" where
  "exists_at e fld sfxs i = (\<exists>sfx \<in> set sfxs. loads e (path_of fld i sfx))"

definition images_upto :: "env \<Rightarrow> string \<Rightarrow> string list \<Rightarrow> int \<Rightarrow> bool" where
  "images_upto e fld sfxs k = (\<forall>i\<ge>1. exists_at e fld sfxs i = (i \<le> k))"

definition all_settle :: "env \<Rightarrow> options \<Rightarrow> bool" where
  "all_settle e opts = (\<forall>i. {0..<length (suffixes_of opts)} \<subseteq> set (order e i))"

definition is_hit :: "env \<Rightarrow> string \<Rightarrow> string list \<Rightarrow> int \<Rightarrow> probed \<Rightarrow> bool" where
  "is_hit e fld sfxs i im =
     (\<exists>sfx \<in> set sfxs. im = \<lparr>file' = path_of fld i sfx, alt = []\<rparr> \<and> loads e (path_of fld i sfx))"

text \<open>
  Examples. A server on which the folder \<open>Chair\<close> holds \<open>1.jpg\<close>, \<open>2.jpg\<close> and \<open>2.png\<close>, and
  where of two requests the second settles first; a server without images, where of four
  requests the third settles before the second. Options: two suffixes with the limits the
  cards pass; the options the cards pass (line 211); two suffixes and a maximal index of 2.
\<close>

definition shelf :: env where
  "shelf = \<lparr>loads = (\<lambda>p. p = path_of ''Chair'' 1 ''jpg'' \<or> p = path_of ''Chair'' 2 ''png''
                        \<or> p = path_of ''Chair'' 2 ''jpg''),
            order = (\<lambda>i. [1, 0])\<rparr>"

definition bare :: env where
  "bare = \<lparr>loads = (\<lambda>p. False), order = (\<lambda>i. [0, 2, 1, 3])\<rparr>"

definition two :: options where
  "two = \<lparr>maxIndex = Some 20, missLimit = Some 5, suffixes = Some [''jpg'', ''png'']\<rparr>"

definition card_options :: options where
  "card_options = \<lparr>maxIndex = Some 20, missLimit = Some 5, suffixes = None\<rparr>"

definition small :: options where
  "small = \<lparr>maxIndex = Some 2, missLimit = Some 5, suffixes = Some [''jpg'', ''png'']\<rparr>"

subsection \<open>Traces\<close>

text \<open>
  Reading a trace: the requests; the requests issued for index \<open>i\<close>; the callbacks entered
  for images of index \<open>i\<close>; the events that belong to indices below \<open>i\<close>.
  \<open>attempts sfxs a b\<close> are the requests of the indices from \<open>a\<close> to \<open>b\<close>, in the order in
  which \<open>forEach\<close> issues them.
\<close>

fun is_Attempt :: "io \<Rightarrow> bool" where
  "is_Attempt (Attempt i sfx) = True"
| "is_Attempt ev = False"

fun attempt_at :: "int \<Rightarrow> io \<Rightarrow> bool" where
  "attempt_at i (Attempt j sfx) = (j = i)"
| "attempt_at i ev = False"

fun settled_at :: "int \<Rightarrow> io \<Rightarrow> bool" where
  "settled_at i (Onload j sfx) = (j = i)"
| "settled_at i (Onerror j sfx) = (j = i)"
| "settled_at i ev = False"

fun below :: "int \<Rightarrow> io \<Rightarrow> bool" where
  "below i (Attempt j sfx) = (j < i)"
| "below i (Onload j sfx) = (j < i)"
| "below i (Onerror j sfx) = (j < i)"
| "below i (Resolve fs) = True"

definition attempts :: "string list \<Rightarrow> int \<Rightarrow> int \<Rightarrow> io list" where
  "attempts sfxs a b = concat (map (\<lambda>i. map (Attempt i) sfxs) [a..b])"

text \<open>
  A trace is ordered (for \<open>n\<close> suffixes) when, before each request it holds, every earlier
  index from 1 on has had its \<open>n\<close> requests issued and \<open>n\<close> callbacks entered. The rounds
  below \<open>i\<close> are done when this holds of the whole trace for the indices below \<open>i\<close>, and the
  trace holds nothing of index \<open>i\<close> or above.
\<close>

definition ordered :: "nat \<Rightarrow> io list \<Rightarrow> bool" where
  "ordered n t =
     (\<forall>pre j sfx post. t = pre @ Attempt j sfx # post \<longrightarrow>
        (\<forall>m. 1 \<le> m \<and> m < j \<longrightarrow>
           length (filter (attempt_at m) pre) = n \<and> length (filter (settled_at m) pre) = n))"

definition rounds_done :: "nat \<Rightarrow> int \<Rightarrow> io list \<Rightarrow> bool" where
  "rounds_done n i t =
     ((\<forall>m. 1 \<le> m \<and> m < i \<longrightarrow>
         length (filter (attempt_at m) t) = n \<and> length (filter (settled_at m) t) = n) \<and>
      list_all (below i) t)"

text \<open>
  The entry pushed to \<open>found\<close> for an index and a suffix; a list of entries whose indices
  strictly increase and stay below \<open>i\<close>.
\<close>

definition entry :: "string \<Rightarrow> int \<times> string \<Rightarrow> probed" where
  "entry fld = (\<lambda>(i, sfx). \<lparr>file' = path_of fld i sfx, alt = []\<rparr>)"

definition increasing :: "string \<Rightarrow> int \<Rightarrow> probed list \<Rightarrow> bool" where
  "increasing fld i fs =
     (\<exists>js. fs = map (entry fld) js \<and> sorted_wrt (<) (map fst js) \<and> (\<forall>j \<in> set (map fst js). j < i))"

section \<open>Properties of the slider and of the grid\<close>

lemma js_rem_nonneg: "0 \<le> a \<Longrightarrow> 0 < b \<Longrightarrow> js_rem a b = a mod b"
  by (simp add: js_rem_def sgn_if)

lemma js_rem_shift: "0 < b \<Longrightarrow> - b \<le> i \<Longrightarrow> js_rem (i + b) b = i mod b"
  by (simp add: js_rem_nonneg)

lemma plus_length_exact:
  assumes "\<bar>i + int n\<bar> \<le> 2 ^ 53 \<or> 2 ^ 32 \<le> n"
  shows "plus_length i n = i + int n"
  using assms by (auto simp: plus_length_def nearest_double_def)

lemma plus_length_handler:
  assumes "- int n \<le> i" and "i \<le> int n"
  shows "plus_length i n = i + int n"
proof (cases "(2::nat) ^ 32 \<le> n")
  case True
  then show ?thesis by (intro plus_length_exact disjI2)
next
  case False
  then have "n < 4294967296" by simp
  then have "int n < 4294967296" by linarith
  with assms have "\<bar>i + int n\<bar> \<le> 9007199254740992" by linarith
  moreover have "(2::int) ^ 53 = 9007199254740992" by simp
  ultimately have "\<bar>i + int n\<bar> \<le> 2 ^ 53" by simp
  then show ?thesis by (intro plus_length_exact disjI1)
qed

lemma showImage_in_range:
  assumes "images c \<noteq> []" and "- int (length (images c)) \<le> i"
    and "plus_length i (length (images c)) = i + int (length (images c))"
  shows "showImage i c =
           Inr (c\<lparr>idx := i mod int (length (images c)),
                  thumb_src := file' (images c ! nat (i mod int (length (images c)))),
                  thumb_alt := (if alt (images c ! nat (i mod int (length (images c)))) = []
                                then cname c
                                else alt (images c ! nat (i mod int (length (images c))))),
                  prev_display := (if 1 < length (images c) then [] else ''none''),
                  next_display := (if 1 < length (images c) then [] else ''none'')\<rparr>)"
proof -
  let ?L = "int (length (images c))"
  from assms have L: "0 < ?L" by simp
  with assms have r: "js_rem (plus_length i (length (images c))) ?L = i mod ?L"
    by (simp add: js_rem_shift)
  from L have "0 \<le> i mod ?L" and "i mod ?L < ?L" by simp_all
  then have m: "\<not> i mod ?L < 0" "\<not> ?L \<le> i mod ?L" by linarith+
  from assms(1) r m show ?thesis by (simp add: showImage_def Let_def)
qed

lemma showImage_handler:
  assumes "images c \<noteq> []" and "- int (length (images c)) \<le> i"
    and "i \<le> int (length (images c))"
  shows "showImage i c =
           Inr (c\<lparr>idx := i mod int (length (images c)),
                  thumb_src := file' (images c ! nat (i mod int (length (images c)))),
                  thumb_alt := (if alt (images c ! nat (i mod int (length (images c)))) = []
                                then cname c
                                else alt (images c ! nat (i mod int (length (images c))))),
                  prev_display := (if 1 < length (images c) then [] else ''none''),
                  next_display := (if 1 < length (images c) then [] else ''none'')\<rparr>)"
  using assms(1,2) plus_length_handler [OF assms(2,3)] by (rule showImage_in_range)

lemma showImage_multiple:
  assumes "images c \<noteq> []" and "int (length (images c)) dvd i"
    and "plus_length i (length (images c)) = i + int (length (images c))"
  shows "showImage i c =
           Inr (c\<lparr>idx := 0, thumb_src := file' (images c ! 0),
                  thumb_alt := (if alt (images c ! 0) = [] then cname c else alt (images c ! 0)),
                  prev_display := (if 1 < length (images c) then [] else ''none''),
                  next_display := (if 1 < length (images c) then [] else ''none'')\<rparr>)"
proof -
  let ?L = "int (length (images c))"
  from assms(2) have "?L dvd i + ?L" by simp
  then have "?L dvd \<bar>i + ?L\<bar>" by simp
  then have "\<bar>i + ?L\<bar> mod ?L = 0" by (simp add: mod_eq_0_iff_dvd)
  then have "js_rem (i + ?L) ?L = 0" by (simp add: js_rem_def)
  with assms(1,3) show ?thesis by (simp add: showImage_def Let_def)
qed

text \<open>
  Claim C1, as amended. In a card with a non-empty image list of length \<open>L\<close>, for every
  integer \<open>i\<close> that is at least \<open>-L\<close> or a multiple of \<open>L\<close>, and for which \<open>i + L\<close> is at most
  \<open>2^53\<close> in magnitude (so that JavaScript adds exactly), \<open>showImage(i)\<close> returns normally
  and sets the current index to \<open>i\<close> normalised modulo \<open>L\<close> into the range from 0 up to \<open>L\<close>,
  that is to \<open>((i mod L) + L) mod L\<close>. The handlers only ever pass 0, \<open>idx - 1\<close>, \<open>idx + 1\<close>
  and \<open>(idx + 1) % L\<close>, all of them between -1 and \<open>L\<close>.
\<close>

theorem showImage_wraps:
  assumes "images c \<noteq> []"
    and "- int (length (images c)) \<le> i \<or> int (length (images c)) dvd i"
    and "\<bar>i + int (length (images c))\<bar> \<le> 2 ^ 53"
  shows "\<exists>c'. showImage i c = Inr c' \<and>
              idx c' = i mod int (length (images c)) \<and>
              idx c' = ((i mod int (length (images c))) + int (length (images c)))
                         mod int (length (images c)) \<and>
              0 \<le> idx c' \<and> idx c' < int (length (images c))"
proof (cases "- int (length (images c)) \<le> i")
  case True
  from assms(3) have "plus_length i (length (images c)) = i + int (length (images c))"
    by (simp add: plus_length_exact)
  with assms(1) True show ?thesis by (simp add: showImage_in_range)
next
  case False
  with assms(2) have d: "int (length (images c)) dvd i" by simp
  from assms(3) have e: "plus_length i (length (images c)) = i + int (length (images c))"
    by (simp add: plus_length_exact)
  from d have "i mod int (length (images c)) = 0" by (simp add: mod_eq_0_iff_dvd)
  with assms(1) show ?thesis by (simp add: showImage_multiple [OF assms(1) d e])
qed

text \<open>
  The card \<open>three\<close>, written out.
\<close>

lemma three_state:
  "three =
     \<lparr>cname = ''Chair'',
      images = [\<lparr>file' = ''Images/Products/Chair/1.jpg'', alt = ''Chair''\<rparr>,
                \<lparr>file' = ''Images/Products/Chair/2.jpg'', alt = ''Chair''\<rparr>,
                \<lparr>file' = ''Images/Products/Chair/3.jpg'', alt = ''Chair''\<rparr>],
      idx = 0, interval = Some 1, isPaused = False,
      thumb_src = ''Images/Products/Chair/1.jpg'', thumb_alt = ''Chair'',
      prev_display = [], next_display = [], hint = [], timers = 1\<rparr>"
  by (simp add: three_def run_def createProductCard_def chair_def pic_def digit_def
        showImage_def plus_length_def nearest_double_def js_rem_def startAuto_def stopAuto_def
        Let_def)

text \<open>
  Claim C1 as stated (any integer, of any magnitude) fails on both sides, on the card
  that a probe with three images leaves. Below \<open>-L\<close>: \<open>showImage(-4)\<close> assigns
  \<open>(-4 + 3) % 3 = -1\<close> to the index and then throws on \<open>images[-1].file\<close>, where the claim
  says the index becomes 2. At large magnitudes: for \<open>i = 2^53 - 2\<close>, a multiple of 3, the
  sum \<open>i + 3\<close> is not a double and is rounded to \<open>2^53\<close>, so the index becomes 2, where the
  claim says 0.
\<close>

theorem showImage_out_of_range:
  "showImage (- 4) three = Inl (TypeError, three\<lparr>idx := - 1\<rparr>) \<and>
   (((- 4) mod 3) + 3) mod 3 = (2::int) \<and>
   idx (settled (showImage (2 ^ 53 - 2) three)) = 2 \<and>
   ((((2::int) ^ 53 - 2) mod 3) + 3) mod 3 = 0"
proof -
  have "nearest_double 9007199254740993 = 9007199254740992" by code_simp
  then have "plus_length 9007199254740990 (Suc (Suc (Suc 0))) = 9007199254740992"
    by (simp add: plus_length_def)
  then have "idx (settled (showImage (2 ^ 53 - 2) three)) = 2"
    by (simp add: three_state showImage_def js_rem_def Let_def)
  moreover have "showImage (- 4) three = Inl (TypeError, three\<lparr>idx := - 1\<rparr>)"
    by (simp add: three_state showImage_def plus_length_def nearest_double_def js_rem_def Let_def)
  ultimately show ?thesis by simp
qed

text \<open>
  The amended claim C1 on the same card: at \<open>i = -1\<close> the index becomes 2, at \<open>i = -6\<close> it
  becomes 0.
\<close>

theorem showImage_wraps_witness:
  "images three \<noteq> [] \<and> - int (length (images three)) \<le> - 1 \<and>
   int (length (images three)) dvd - 6 \<and>
   \<bar>- 1 + int (length (images three))\<bar> \<le> 2 ^ 53 \<and>
   \<bar>- 6 + int (length (images three))\<bar> \<le> 2 ^ 53 \<and>
   (\<exists>c'. showImage (- 1) three = Inr c' \<and> idx c' = 2) \<and>
   (\<exists>c'. showImage (- 6) three = Inr c' \<and> idx c' = 0)"
proof -
  have h: "images three \<noteq> []" "- int (length (images three)) \<le> - 1"
    "int (length (images three)) dvd - 6"
    "\<bar>- 1 + int (length (images three))\<bar> \<le> 2 ^ 53"
    "\<bar>- 6 + int (length (images three))\<bar> \<le> 2 ^ 53"
    by (simp_all add: three_state)
  from showImage_wraps [OF h(1) disjI1 [OF h(2)] h(4)] obtain c'
    where a: "showImage (- 1) three = Inr c'" "idx c' = - 1 mod int (length (images three))"
    by blast
  from showImage_wraps [OF h(1) disjI2 [OF h(3)] h(5)] obtain c''
    where b: "showImage (- 6) three = Inr c''" "idx c'' = - 6 mod int (length (images three))"
    by blast
  have "- 1 mod int (length (images three)) = 2" and "- 6 mod int (length (images three)) = 0"
    by (simp_all add: three_state)
  with a b h show ?thesis by simp
qed

lemma showImage_empty: "images c = [] \<Longrightarrow> showImage i c = Inr c"
  by (simp add: showImage_def)

lemma startAuto_keeps:
  "images (startAuto c) = images c" "idx (startAuto c) = idx c"
  "prev_display (startAuto c) = prev_display c" "next_display (startAuto c) = next_display c"
  "isPaused (startAuto c) = isPaused c"
  by (simp_all add: startAuto_def stopAuto_def Let_def split: option.splits)

lemma startAuto_short:
  "length (images c) \<le> 1 \<Longrightarrow> interval (startAuto c) = None \<and> timers (startAuto c) = timers c"
  by (simp add: startAuto_def stopAuto_def Let_def split: option.splits)

lemma startAuto_long:
  "1 < length (images c) \<Longrightarrow> interval (startAuto c) = Some (Suc (timers c))"
  by (simp add: startAuto_def stopAuto_def Let_def split: option.splits)

lemma tick_arg:
  assumes "0 \<le> idx c" "idx c < int (length (images c))"
  shows "js_rem (idx c + 1) (int (length (images c))) = (idx c + 1) mod int (length (images c))"
proof -
  from assms have "0 \<le> idx c + 1" and "0 < int (length (images c))" by linarith+
  then show ?thesis by (rule js_rem_nonneg)
qed

lemma showImage_mod:
  assumes "images c \<noteq> []"
  shows "showImage (i mod int (length (images c))) c =
           Inr (c\<lparr>idx := i mod int (length (images c)),
                  thumb_src := file' (images c ! nat (i mod int (length (images c)))),
                  thumb_alt := (if alt (images c ! nat (i mod int (length (images c)))) = []
                                then cname c
                                else alt (images c ! nat (i mod int (length (images c))))),
                  prev_display := (if 1 < length (images c) then [] else ''none''),
                  next_display := (if 1 < length (images c) then [] else ''none'')\<rparr>)"
proof -
  let ?L = "int (length (images c))"
  from assms have "0 < ?L" by simp
  then have "0 \<le> i mod ?L" by simp
  moreover from \<open>0 < ?L\<close> have "i mod ?L \<le> ?L" by (simp add: less_imp_le)
  ultimately have "- ?L \<le> i mod ?L" and "i mod ?L \<le> ?L" by linarith+
  with assms show ?thesis using showImage_handler [of c "i mod ?L"] by simp
qed

lemma step_index_in_range:
  assumes "index_in_range c"
  shows "index_in_range (step e c)"
proof (cases "images c = []")
  case True
  then show ?thesis
    by (cases "(e, c)" rule: step.cases)
       (auto simp: index_in_range_def showImage_empty showImage_handler startAuto_keeps Let_def
             split: option.splits)
next
  case False
  with assms have r: "0 \<le> idx c" "idx c < int (length (images c))"
    by (simp_all add: index_in_range_def)
  from False r show ?thesis
    by (cases "(e, c)" rule: step.cases)
       (auto simp: index_in_range_def showImage_handler showImage_mod tick_arg startAuto_keeps Let_def
             split: option.splits)
qed

lemma run_Nil: "run [] c = c"
  by (simp add: run_def)

lemma run_Cons: "run (e # evs) c = run evs (step e c)"
  by (simp add: run_def)

lemma run_append: "run (xs @ ys) c = run ys (run xs c)"
  by (simp add: run_def)

lemma run_index_in_range: "index_in_range c \<Longrightarrow> index_in_range (run evs c)"
  by (induction evs arbitrary: c) (simp_all add: run_Nil run_Cons step_index_in_range)

text \<open>
  Claim C8. \<open>0 \<le> idx < images.length\<close> whenever \<open>images\<close> is non-empty: the invariant holds
  for a new card, every event handler preserves it (the completion of the probe, the
  previous and next buttons, the keys, the tick, and the others), and so it holds after
  every sequence of events.
\<close>

theorem index_invariant:
  "index_in_range (createProductCard p) \<and>
   (index_in_range c \<longrightarrow> index_in_range (step e c)) \<and>
   index_in_range (run evs (createProductCard p))"
proof -
  have "index_in_range (createProductCard p)"
    by (simp add: index_in_range_def createProductCard_def)
  then show ?thesis
    by (simp add: step_index_in_range run_index_in_range)
qed

text \<open>
  Claim C8 on a card with three images at index 0 (the previous button gives index 2), and
  on a run of a new card.
\<close>

theorem index_invariant_witness:
  "images three \<noteq> [] \<and> 0 \<le> idx three \<and> idx three < int (length (images three)) \<and>
   images (step PrevClick three) \<noteq> [] \<and> idx (step PrevClick three) = 2 \<and>
   0 \<le> idx (step PrevClick three) \<and> idx (step PrevClick three) < int (length (images (step PrevClick three))) \<and>
   images (run [ProbeComplete [pic 1, pic 2], PrevClick] (createProductCard chair)) \<noteq> [] \<and>
   0 \<le> idx (run [ProbeComplete [pic 1, pic 2], PrevClick] (createProductCard chair)) \<and>
   idx (run [ProbeComplete [pic 1, pic 2], PrevClick] (createProductCard chair))
     < int (length (images (run [ProbeComplete [pic 1, pic 2], PrevClick] (createProductCard chair))))"
proof -
  have a: "images three \<noteq> []" "idx three = 0" "length (images three) = 3"
    by (simp_all add: three_state)
  have b: "images (step PrevClick three) \<noteq> []" "idx (step PrevClick three) = 2"
    by (simp_all add: three_state showImage_def plus_length_def nearest_double_def js_rem_def
          Let_def)
  have c: "images (run [ProbeComplete [pic 1, pic 2], PrevClick] (createProductCard chair)) \<noteq> []"
    by (simp add: run_def createProductCard_def showImage_def plus_length_def nearest_double_def
          startAuto_def stopAuto_def js_rem_def Let_def)
  from a b c index_invariant [of chair three PrevClick "[ProbeComplete [pic 1, pic 2], PrevClick]"]
  show ?thesis by (simp add: index_in_range_def)
qed

lemma run_preserves:
  assumes "P c"
    and "\<And>e c. \<not> is_ProbeComplete e \<Longrightarrow> P c \<Longrightarrow> P (step e c)"
    and "\<not> list_ex is_ProbeComplete evs"
  shows "P (run evs c)"
  using assms(1,3)
proof (induction evs arbitrary: c)
  case Nil
  then show ?case by (simp add: run_Nil)
next
  case (Cons e evs)
  from Cons.prems have "P (step e c)" by (simp add: assms(2))
  with Cons show ?case by (simp add: run_Cons)
qed

lemma showImage_single:
  assumes "length (images c) = 1"
  shows "showImage i c =
           Inr (c\<lparr>idx := 0, thumb_src := file' (images c ! 0),
                  thumb_alt := (if alt (images c ! 0) = [] then cname c else alt (images c ! 0)),
                  prev_display := ''none'', next_display := ''none''\<rparr>)"
proof -
  from assms have "images c \<noteq> []" by auto
  with assms show ?thesis by (simp add: showImage_def js_rem_def Let_def)
qed

lemma showImage_still:
  assumes "still c"
  shows "still (settled (showImage i c))"
proof (cases "images c = []")
  case True
  with assms show ?thesis by (simp add: showImage_empty)
next
  case False
  with assms have "length (images c) = 1" by (cases "images c") (auto simp: still_def)
  with assms show ?thesis by (simp add: showImage_single still_def)
qed

lemma startAuto_still: "still c \<Longrightarrow> still (startAuto c)"
  by (simp add: still_def startAuto_keeps startAuto_short)

lemma still_isPaused: "still (c\<lparr>isPaused := b\<rparr>) = still c"
  by (simp add: still_def)

lemma step_still:
  assumes "still c" and "\<not> is_ProbeComplete e"
  shows "still (step e c)"
proof (cases "(e, c)" rule: step.cases)
  case (12 c')
  with assms(1) show ?thesis
    by (simp add: Let_def startAuto_still still_isPaused)
next
  case (14 c')
  with assms(1) showImage_still [of c] show ?thesis
    by (simp add: still_def split: option.splits)
qed (use assms showImage_still [of c] in \<open>simp_all add: still_def\<close>)

lemma probe_single_still:
  assumes "still c"
  shows "still (step (ProbeComplete [im]) c) \<and> length (images (step (ProbeComplete [im]) c)) = 1"
proof -
  let ?c1 = "c\<lparr>images := map (\<lambda>f. \<lparr>file' = file' f, alt = cname c\<rparr>) [im], hint := []\<rparr>"
  have l: "length (images ?c1) = 1" by simp
  from assms have t: "timers ?c1 = 0" and i: "interval ?c1 = None" by (simp_all add: still_def)
  from l t i show ?thesis
    by (simp add: showImage_single still_def startAuto_keeps startAuto_short)
qed

text \<open>
  Claim C5. For a card whose probe completed with exactly one image, in every state the
  card reaches, after the completion and any events that follow it and also before it, no
  interval timer is set, \<open>setInterval\<close> has never been called (not by the completion of
  the probe, not by a click), and the previous and next buttons are hidden.
\<close>

theorem single_image_card:
  assumes "\<not> list_ex is_ProbeComplete pre" and "\<not> list_ex is_ProbeComplete post"
  shows "interval (run (pre @ ProbeComplete [im] # post) (createProductCard p)) = None \<and>
         timers (run (pre @ ProbeComplete [im] # post) (createProductCard p)) = 0 \<and>
         prev_display (run (pre @ ProbeComplete [im] # post) (createProductCard p)) = ''none'' \<and>
         next_display (run (pre @ ProbeComplete [im] # post) (createProductCard p)) = ''none'' \<and>
         length (images (run (pre @ ProbeComplete [im] # post) (createProductCard p))) = 1 \<and>
         interval (run pre (createProductCard p)) = None \<and>
         timers (run pre (createProductCard p)) = 0 \<and>
         prev_display (run pre (createProductCard p)) = ''none'' \<and>
         next_display (run pre (createProductCard p)) = ''none''"
proof -
  have "still (createProductCard p)"
    by (simp add: still_def createProductCard_def)
  then have before: "still (run pre (createProductCard p))"
    using step_still assms(1) by (rule run_preserves)
  note at = probe_single_still [OF before, of im]
  from at have "still (step (ProbeComplete [im]) (run pre (createProductCard p)))" ..
  then have after: "still (run post (step (ProbeComplete [im]) (run pre (createProductCard p))))"
    using step_still assms(2) by (rule run_preserves)
  have "length (images (run post (step (ProbeComplete [im]) (run pre (createProductCard p))))) = 1"
    using _ _ assms(2)
  proof (rule run_preserves)
    from at show "length (images (step (ProbeComplete [im]) (run pre (createProductCard p)))) = 1" ..
    show "length (images (step e c)) = 1"
      if "\<not> is_ProbeComplete e" and "length (images c) = 1" for e c
      using that
      by (cases "(e, c)" rule: step.cases)
         (simp_all add: showImage_single startAuto_keeps Let_def split: option.splits)
  qed
  with before after show ?thesis
    by (simp add: run_append run_Cons still_def)
qed

text \<open>
  Claim C5 on a run: clicks, hover, a key and a tick around the completion of a probe that
  found one image.
\<close>

theorem single_image_card_witness:
  "\<not> list_ex is_ProbeComplete [CardClick, MouseEnter] \<and>
   \<not> list_ex is_ProbeComplete [CardClick, KeyDown ArrowLeft, Tick, CardClick] \<and>
   interval (run ([CardClick, MouseEnter] @ ProbeComplete [pic 1] # [CardClick, KeyDown ArrowLeft, Tick, CardClick])
     (createProductCard chair)) = None \<and>
   timers (run ([CardClick, MouseEnter] @ ProbeComplete [pic 1] # [CardClick, KeyDown ArrowLeft, Tick, CardClick])
     (createProductCard chair)) = 0 \<and>
   prev_display (run ([CardClick, MouseEnter] @ ProbeComplete [pic 1] # [CardClick, KeyDown ArrowLeft, Tick, CardClick])
     (createProductCard chair)) = ''none'' \<and>
   next_display (run ([CardClick, MouseEnter] @ ProbeComplete [pic 1] # [CardClick, KeyDown ArrowLeft, Tick, CardClick])
     (createProductCard chair)) = ''none''"
  using single_image_card [of "[CardClick, MouseEnter]" "[CardClick, KeyDown ArrowLeft, Tick, CardClick]" "pic 1" chair]
  by simp

lemma playing_isPaused: "playing n (c\<lparr>isPaused := b\<rparr>) = playing n c"
  by (simp add: playing_def)

lemma showImage_playing:
  assumes "playing n c" and "2 \<le> n" and "- 1 \<le> i" and "i \<le> int n"
  shows "playing n (settled (showImage i c))"
proof -
  from assms have ne: "images c \<noteq> []" and len: "length (images c) = n"
    by (auto simp: playing_def)
  from assms len have lo: "- int (length (images c)) \<le> i" by simp
  from assms(4) len have hi: "i \<le> int (length (images c))" by simp
  from len assms(2) have "0 < int n" by simp
  then have "0 \<le> i mod int n" and "i mod int n < int n" by simp_all
  with assms(1,2) len show ?thesis
    by (simp add: showImage_handler [OF ne lo hi] playing_def)
qed

lemma step_playing:
  assumes "playing n c" and "2 \<le> n" and "\<not> is_ProbeComplete e"
  shows "playing n (step e c)"
proof (cases "(e, c)" rule: step.cases)
  case (12 c')
  with assms(1) show ?thesis
    by (auto simp: Let_def playing_def)
next
  case (14 c')
  from assms(1) have r: "0 \<le> idx c" "idx c < int (length (images c))"
    by (simp_all add: playing_def)
  from assms(1) obtain h where h: "interval c = Some h"
    by (auto simp: playing_def)
  from r have "0 < int (length (images c))" by linarith
  then have "0 \<le> (idx c + 1) mod int (length (images c))" by simp
  then have "0 \<le> js_rem (idx c + 1) (int (length (images c)))"
    by (simp add: tick_arg [OF r])
  then have "- 1 \<le> js_rem (idx c + 1) (int (length (images c)))" by linarith
  moreover have "js_rem (idx c + 1) (int (length (images c))) \<le> int n"
  proof -
    from \<open>0 < int (length (images c))\<close>
    have "(idx c + 1) mod int (length (images c)) < int (length (images c))" by simp
    then have "js_rem (idx c + 1) (int (length (images c))) \<le> int (length (images c))"
      by (simp add: tick_arg [OF r])
    moreover from assms(1) have "length (images c) = n" by (simp add: playing_def)
    ultimately show ?thesis by simp
  qed
  ultimately have "playing n (settled (showImage (js_rem (idx c + 1) (int (length (images c)))) c))"
    using assms(1,2) by (intro showImage_playing)
  with 14 h assms(1) show ?thesis by simp
qed (use assms showImage_playing [of n c "idx c + 1"] showImage_playing [of n c "idx c - 1"]
      in \<open>simp_all add: playing_isPaused, simp_all add: playing_def\<close>)

lemma probe_playing:
  assumes "2 \<le> length fs"
  shows "playing (length fs) (step (ProbeComplete fs) c)"
proof -
  let ?c1 = "c\<lparr>images := map (\<lambda>f. \<lparr>file' = file' f, alt = cname c\<rparr>) fs, hint := []\<rparr>"
  from assms have ne: "images ?c1 \<noteq> []" and fs: "fs \<noteq> []" by auto
  have lo: "- int (length (images ?c1)) \<le> 0" and hi: "0 \<le> int (length (images ?c1))"
    by simp_all
  from assms fs show ?thesis
    by (simp add: showImage_handler [OF ne lo hi] playing_def startAuto_keeps startAuto_long)
qed

lemma tick_playing:
  assumes "playing n c"
  shows "idx (step Tick c) = (if isPaused c then idx c else (idx c + 1) mod int n)"
proof -
  from assms have r: "0 \<le> idx c" "idx c < int (length (images c))"
    and len: "length (images c) = n" and ne: "images c \<noteq> []"
    by (auto simp: playing_def)
  from assms obtain h where h: "interval c = Some h"
    by (auto simp: playing_def)
  from h show ?thesis
    unfolding len [symmetric]
    by (simp add: tick_arg [OF r] showImage_mod [OF ne])
qed

text \<open>
  Claim C6. For a card whose probe completed with two or more images, in every state the
  card reaches afterwards the previous and next buttons are shown and the interval timer
  is set; a tick of the timer while the pause flag is false advances the current index by
  one modulo the number of images, and a tick while the flag is true leaves it unchanged.
\<close>

theorem autoplay_advances:
  assumes "2 \<le> length fs"
    and "\<not> list_ex is_ProbeComplete pre" and "\<not> list_ex is_ProbeComplete post"
  shows "prev_display (run (pre @ ProbeComplete fs # post) (createProductCard p)) = [] \<and>
         next_display (run (pre @ ProbeComplete fs # post) (createProductCard p)) = [] \<and>
         interval (run (pre @ ProbeComplete fs # post) (createProductCard p)) \<noteq> None \<and>
         length (images (run (pre @ ProbeComplete fs # post) (createProductCard p))) = length fs \<and>
         (\<not> isPaused (run (pre @ ProbeComplete fs # post) (createProductCard p)) \<longrightarrow>
            idx (step Tick (run (pre @ ProbeComplete fs # post) (createProductCard p))) =
              (idx (run (pre @ ProbeComplete fs # post) (createProductCard p)) + 1) mod int (length fs)) \<and>
         (isPaused (run (pre @ ProbeComplete fs # post) (createProductCard p)) \<longrightarrow>
            idx (step Tick (run (pre @ ProbeComplete fs # post) (createProductCard p))) =
              idx (run (pre @ ProbeComplete fs # post) (createProductCard p)))"
proof -
  let ?c = "run (pre @ ProbeComplete fs # post) (createProductCard p)"
  have "playing (length fs) (step (ProbeComplete fs) (run pre (createProductCard p)))"
    using assms(1) by (rule probe_playing)
  then have "playing (length fs) (run post (step (ProbeComplete fs) (run pre (createProductCard p))))"
    using step_playing [OF _ assms(1)] assms(3) by (rule run_preserves)
  then have p: "playing (length fs) ?c"
    by (simp add: run_append run_Cons)
  from p tick_playing [OF p] show ?thesis
    by (simp add: playing_def)
qed

text \<open>
  Claim C6 on two runs with three images: an unpaused tick at index 2 wraps to 0, a paused
  tick at index 1 stays at 1.
\<close>

theorem autoplay_advances_witness:
  "2 \<le> length [pic 1, pic 2, pic 3] \<and>
   \<not> list_ex is_ProbeComplete [MouseEnter, MouseLeave] \<and>
   \<not> list_ex is_ProbeComplete [NextClick, NextClick] \<and>
   \<not> list_ex is_ProbeComplete [NextClick, MouseEnter] \<and>
   \<not> isPaused (run ([MouseEnter, MouseLeave] @ ProbeComplete [pic 1, pic 2, pic 3] # [NextClick, NextClick])
       (createProductCard chair)) \<and>
   idx (run ([MouseEnter, MouseLeave] @ ProbeComplete [pic 1, pic 2, pic 3] # [NextClick, NextClick])
       (createProductCard chair)) = 2 \<and>
   idx (step Tick (run ([MouseEnter, MouseLeave] @ ProbeComplete [pic 1, pic 2, pic 3] # [NextClick, NextClick])
       (createProductCard chair))) = 0 \<and>
   isPaused (run ([MouseEnter, MouseLeave] @ ProbeComplete [pic 1, pic 2, pic 3] # [NextClick, MouseEnter])
       (createProductCard chair)) \<and>
   idx (run ([MouseEnter, MouseLeave] @ ProbeComplete [pic 1, pic 2, pic 3] # [NextClick, MouseEnter])
       (createProductCard chair)) = 1 \<and>
   idx (step Tick (run ([MouseEnter, MouseLeave] @ ProbeComplete [pic 1, pic 2, pic 3] # [NextClick, MouseEnter])
       (createProductCard chair))) = 1 \<and>
   prev_display (run ([MouseEnter, MouseLeave] @ ProbeComplete [pic 1, pic 2, pic 3] # [NextClick, NextClick])
       (createProductCard chair)) = []"
proof -
  have a: "\<not> isPaused (run ([MouseEnter, MouseLeave] @ ProbeComplete [pic 1, pic 2, pic 3] # [NextClick, NextClick])
       (createProductCard chair))"
    and b: "idx (run ([MouseEnter, MouseLeave] @ ProbeComplete [pic 1, pic 2, pic 3] # [NextClick, NextClick])
       (createProductCard chair)) = 2"
    and c: "isPaused (run ([MouseEnter, MouseLeave] @ ProbeComplete [pic 1, pic 2, pic 3] # [NextClick, MouseEnter])
       (createProductCard chair))"
    and d: "idx (run ([MouseEnter, MouseLeave] @ ProbeComplete [pic 1, pic 2, pic 3] # [NextClick, MouseEnter])
       (createProductCard chair)) = 1"
    by (simp_all add: run_def createProductCard_def showImage_def plus_length_def
          nearest_double_def startAuto_def stopAuto_def js_rem_def Let_def)
  from a b c d
    autoplay_advances [of "[pic 1, pic 2, pic 3]" "[MouseEnter, MouseLeave]" "[NextClick, NextClick]" chair]
    autoplay_advances [of "[pic 1, pic 2, pic 3]" "[MouseEnter, MouseLeave]" "[NextClick, MouseEnter]" chair]
  show ?thesis by simp
qed

text \<open>
  Claim C7. When the fetch of the catalog fails (a network error, a status outside
  200..299, or a body that is not JSON) and the page has the container, \<open>loadProducts\<close>
  renders the embedded list: exactly 21 cards, and a card as created shows the loading
  placeholder and the hint \<open>Images loading\<close> with the ellipsis, with no image yet.
\<close>

theorem fallback_renders_21:
  assumes "f = NetworkError \<or> (\<exists>st b. f = Response st b \<and> \<not> (200 \<le> st \<and> st \<le> 299))
           \<or> (\<exists>st. f = Response st None)"
  shows "loadProducts (Some children) f =
           Some (map (\<lambda>p. CardNode (createProductCard p)) EMBEDDED_PRODUCTS) \<and>
         length (map (\<lambda>p. CardNode (createProductCard p)) EMBEDDED_PRODUCTS) = 21 \<and>
         (\<forall>p. thumb_src (createProductCard p) = ''https://via.placeholder.com/600x400?text=Loading'' \<and>
              hint (createProductCard p) = ''Images loading'' @ [CHR 0xE2, CHR 0x80, CHR 0xA6] \<and>
              images (createProductCard p) = [])"
proof -
  from assms have "safeFetchJson f = JNull"
    by (auto simp: safeFetchJson_def)
  moreover have "length EMBEDDED_PRODUCTS = 21"
    by (simp add: EMBEDDED_PRODUCTS_def)
  ultimately show ?thesis
    by (auto simp: loadProducts_def createProductCard_def)
qed

text \<open>
  Claim C7 for each kind of failure: a network error, a 404 response, a body that does not
  parse.
\<close>

theorem fallback_renders_21_witness:
  "loadProducts (Some [Paragraph ''old'']) NetworkError =
           Some (map (\<lambda>p. CardNode (createProductCard p)) EMBEDDED_PRODUCTS) \<and>
   loadProducts (Some []) (Response 404 (Some (JArray [chair]))) =
           Some (map (\<lambda>p. CardNode (createProductCard p)) EMBEDDED_PRODUCTS) \<and>
   loadProducts (Some []) (Response 200 None) =
           Some (map (\<lambda>p. CardNode (createProductCard p)) EMBEDDED_PRODUCTS) \<and>
   length (map (\<lambda>p. CardNode (createProductCard p)) EMBEDDED_PRODUCTS) = 21"
  using fallback_renders_21 [of NetworkError "[Paragraph ''old'']"]
    fallback_renders_21 [of "Response 404 (Some (JArray [chair]))" "[]"]
    fallback_renders_21 [of "Response 200 None" "[]"]
  by simp

section \<open>Properties of the probe\<close>

lemma hits_Cons:
  "hits e fld sfxs i (p # ps) =
     (if loads e (path_of fld i (sfxs ! p)) then p # hits e fld sfxs i ps else hits e fld sfxs i ps)"
  by (simp add: hits_def)

lemma settle_early:
  assumes "remaining s \<noteq> 1"
  shows "index (settle e fld i sfx s) = index s"
    and "scheduled (settle e fld i sfx s) = scheduled s"
    and "remaining (settle e fld i sfx s) = remaining s - 1"
    and "trace (settle e fld i sfx s) =
           trace s @ [if loads e (path_of fld i sfx) then Onload i sfx else Onerror i sfx]"
    and "loadedThisIndex (settle e fld i sfx s) = (loadedThisIndex s \<or> loads e (path_of fld i sfx))"
    and "found (settle e fld i sfx s) =
           (if \<not> loadedThisIndex s \<and> loads e (path_of fld i sfx)
            then found s @ [\<lparr>file' = path_of fld i sfx, alt = []\<rparr>] else found s)"
    and "consecutiveMisses (settle e fld i sfx s) =
           (if \<not> loadedThisIndex s \<and> loads e (path_of fld i sfx) then 0 else consecutiveMisses s)"
  using assms by (simp_all add: settle_def onload_def onerror_def Let_def)

lemma settle_last:
  assumes "remaining s = 1"
  shows "index (settle e fld i sfx s) = index s + 1"
    and "scheduled (settle e fld i sfx s) = Suc (scheduled s)"
    and "remaining (settle e fld i sfx s) = 0"
    and "trace (settle e fld i sfx s) =
           trace s @ [if loads e (path_of fld i sfx) then Onload i sfx else Onerror i sfx]"
    and "found (settle e fld i sfx s) =
           (if \<not> loadedThisIndex s \<and> loads e (path_of fld i sfx)
            then found s @ [\<lparr>file' = path_of fld i sfx, alt = []\<rparr>] else found s)"
    and "consecutiveMisses (settle e fld i sfx s) =
           (if loads e (path_of fld i sfx) then (if loadedThisIndex s then consecutiveMisses s else 0)
            else if loadedThisIndex s then consecutiveMisses s else consecutiveMisses s + 1)"
  using assms by (simp_all add: settle_def onload_def onerror_def Let_def)

lemma fold_settle_early:
  assumes "int (length ps) < remaining s"
  shows "index (fold (\<lambda>p. settle e fld i (sfxs ! p)) ps s) = index s \<and>
         scheduled (fold (\<lambda>p. settle e fld i (sfxs ! p)) ps s) = scheduled s \<and>
         remaining (fold (\<lambda>p. settle e fld i (sfxs ! p)) ps s) = remaining s - int (length ps) \<and>
         trace (fold (\<lambda>p. settle e fld i (sfxs ! p)) ps s) = trace s @ map (outcome e fld sfxs i) ps \<and>
         loadedThisIndex (fold (\<lambda>p. settle e fld i (sfxs ! p)) ps s) =
           (loadedThisIndex s \<or> hits e fld sfxs i ps \<noteq> []) \<and>
         found (fold (\<lambda>p. settle e fld i (sfxs ! p)) ps s) =
           (if loadedThisIndex s then found s else found s @ winner fld sfxs i (hits e fld sfxs i ps)) \<and>
         consecutiveMisses (fold (\<lambda>p. settle e fld i (sfxs ! p)) ps s) =
           (if \<not> loadedThisIndex s \<and> hits e fld sfxs i ps \<noteq> [] then 0 else consecutiveMisses s)"
  using assms
proof (induction ps arbitrary: s)
  case Nil
  show ?case by (simp add: hits_def winner_def)
next
  case (Cons p ps)
  let ?s1 = "settle e fld i (sfxs ! p) s"
  from Cons.prems have ne: "remaining s \<noteq> 1" by simp
  note st = settle_early [OF ne, of e fld i "sfxs ! p"]
  from Cons.prems have "int (length ps) < remaining ?s1" by (simp add: st)
  from Cons.IH [OF this] show ?case
    by (simp add: st hits_Cons outcome_def winner_def)
qed

lemma settling_distinct: "distinct (settling e n i)"
  by (simp add: settling_def)

lemma settling_set: "set (settling e n i) = {p \<in> set (order e i). p < n}"
  by (auto simp: settling_def)

lemma length_settling: "length (settling e n i) \<le> n"
proof -
  have "set (settling e n i) \<subseteq> {0..<n}" by (auto simp: settling_set)
  then have "card (set (settling e n i)) \<le> card {0..<n}" by (intro card_mono) simp_all
  then show ?thesis by (simp add: distinct_card [OF settling_distinct])
qed

lemma settling_complete:
  "(length (settling e n i) = n) = ({0..<n} \<subseteq> set (order e i))"
proof
  assume l: "length (settling e n i) = n"
  have sub: "set (settling e n i) \<subseteq> {0..<n}" by (auto simp: settling_set)
  from l have "card (set (settling e n i)) = card {0..<n}"
    by (simp add: distinct_card [OF settling_distinct])
  with sub have "set (settling e n i) = {0..<n}" by (intro card_subset_eq) simp_all
  then show "{0..<n} \<subseteq> set (order e i)" by (auto simp: settling_set)
next
  assume "{0..<n} \<subseteq> set (order e i)"
  then have "set (settling e n i) = {0..<n}" by (auto simp: settling_set)
  then have "card (set (settling e n i)) = n" by simp
  then show "length (settling e n i) = n" by (simp add: distinct_card [OF settling_distinct])
qed

lemma hits_append: "hits e fld sfxs i (ps @ qs) = hits e fld sfxs i ps @ hits e fld sfxs i qs"
  by (simp add: hits_def)

lemma winner_append: "hs \<noteq> [] \<Longrightarrow> winner fld sfxs i (hs @ gs) = winner fld sfxs i hs"
  by (cases hs) (simp_all add: winner_def)

lemma fold_settle_complete:
  assumes "int (length ps) = remaining s" and "ps \<noteq> []" and "\<not> loadedThisIndex s"
  shows "index (fold (\<lambda>p. settle e fld i (sfxs ! p)) ps s) = index s + 1 \<and>
         scheduled (fold (\<lambda>p. settle e fld i (sfxs ! p)) ps s) = Suc (scheduled s) \<and>
         trace (fold (\<lambda>p. settle e fld i (sfxs ! p)) ps s) = trace s @ map (outcome e fld sfxs i) ps \<and>
         found (fold (\<lambda>p. settle e fld i (sfxs ! p)) ps s) =
           found s @ winner fld sfxs i (hits e fld sfxs i ps) \<and>
         consecutiveMisses (fold (\<lambda>p. settle e fld i (sfxs ! p)) ps s) =
           (if hits e fld sfxs i ps \<noteq> [] then 0 else consecutiveMisses s + 1)"
proof -
  from assms(2) obtain qs p where ps: "ps = qs @ [p]"
    by (cases ps rule: rev_cases) auto
  let ?s1 = "fold (\<lambda>p. settle e fld i (sfxs ! p)) qs s"
  from assms(1) ps have "int (length qs) < remaining s" by simp
  note early = fold_settle_early [OF this, of e fld i sfxs]
  from early assms(1) ps have r: "remaining ?s1 = 1" by simp
  note last = settle_last [OF r, of e fld i "sfxs ! p"]
  have f: "fold (\<lambda>p. settle e fld i (sfxs ! p)) ps s = settle e fld i (sfxs ! p) ?s1"
    by (simp add: ps)
  show ?thesis
    unfolding f
    using assms(3) early
    by (simp add: last ps hits_append winner_append outcome_def)
       (simp add: hits_def winner_def)
qed

lemma round_complete:
  assumes "length (settling e (length sfxs) (index s)) = length sfxs" and "sfxs \<noteq> []"
  shows "index (tryNext_round e fld sfxs s) = index s + 1"
    and "scheduled (tryNext_round e fld sfxs s) = Suc (scheduled s)"
    and "trace (tryNext_round e fld sfxs s) =
           trace s @ map (Attempt (index s)) sfxs @
           map (outcome e fld sfxs (index s)) (settling e (length sfxs) (index s))"
    and "found (tryNext_round e fld sfxs s) =
           found s @ winner fld sfxs (index s)
             (hits e fld sfxs (index s) (settling e (length sfxs) (index s)))"
    and "consecutiveMisses (tryNext_round e fld sfxs s) =
           (if hits e fld sfxs (index s) (settling e (length sfxs) (index s)) \<noteq> [] then 0
            else consecutiveMisses s + 1)"
proof -
  let ?s0 = "s\<lparr>loadedThisIndex := False, remaining := int (length sfxs),
               trace := trace s @ map (Attempt (index s)) sfxs\<rparr>"
  let ?ps = "settling e (length sfxs) (index s)"
  from assms have a: "int (length ?ps) = remaining ?s0" by simp
  from assms have b: "?ps \<noteq> []" by auto
  have c: "\<not> loadedThisIndex ?s0" by simp
  note fold_settle_complete [OF a b c, of e fld "index s" sfxs]
  then show "index (tryNext_round e fld sfxs s) = index s + 1"
    and "scheduled (tryNext_round e fld sfxs s) = Suc (scheduled s)"
    and "trace (tryNext_round e fld sfxs s) =
           trace s @ map (Attempt (index s)) sfxs @
           map (outcome e fld sfxs (index s)) (settling e (length sfxs) (index s))"
    and "found (tryNext_round e fld sfxs s) =
           found s @ winner fld sfxs (index s)
             (hits e fld sfxs (index s) (settling e (length sfxs) (index s)))"
    and "consecutiveMisses (tryNext_round e fld sfxs s) =
           (if hits e fld sfxs (index s) (settling e (length sfxs) (index s)) \<noteq> [] then 0
            else consecutiveMisses s + 1)"
    by (simp_all add: tryNext_round_def)
qed

lemma round_incomplete:
  assumes "length (settling e (length sfxs) (index s)) \<noteq> length sfxs"
  shows "scheduled (tryNext_round e fld sfxs s) = scheduled s"
    and "trace (tryNext_round e fld sfxs s) =
           trace s @ map (Attempt (index s)) sfxs @
           map (outcome e fld sfxs (index s)) (settling e (length sfxs) (index s))"
proof -
  let ?s0 = "s\<lparr>loadedThisIndex := False, remaining := int (length sfxs),
               trace := trace s @ map (Attempt (index s)) sfxs\<rparr>"
  let ?ps = "settling e (length sfxs) (index s)"
  from assms length_settling [of e "length sfxs" "index s"]
  have "int (length ?ps) < remaining ?s0" by simp
  note fold_settle_early [OF this, of e fld "index s" sfxs]
  then show "scheduled (tryNext_round e fld sfxs s) = scheduled s"
    and "trace (tryNext_round e fld sfxs s) =
           trace s @ map (Attempt (index s)) sfxs @
           map (outcome e fld sfxs (index s)) (settling e (length sfxs) (index s))"
    by (simp_all add: tryNext_round_def)
qed

lemma tryNext_stop:
  "stops opts s \<Longrightarrow>
   tryNext e fld opts s = (Resolved (found s), s\<lparr>trace := trace s @ [Resolve (found s)]\<rparr>)"
  by (subst tryNext.simps) (simp add: stops_def)

lemma tryNext_empty:
  assumes "\<not> stops opts s" and "suffixes_of opts = []"
  shows "tryNext e fld opts s =
           (Resolved (found s),
            s\<lparr>loadedThisIndex := False, remaining := 0, trace := trace s @ [Resolve (found s)]\<rparr>)"
  using assms
  by (subst tryNext.simps) (simp add: stops_def tryNext_round_def settling_def)

lemma tryNext_hang:
  assumes "\<not> stops opts s" and "suffixes_of opts \<noteq> []" and "\<not> complete e opts s"
    and "scheduled s = 0"
  shows "tryNext e fld opts s = (Pending, tryNext_round e fld (suffixes_of opts) s)"
proof -
  from assms(3) have "length (settling e (length (suffixes_of opts)) (index s)) \<noteq> length (suffixes_of opts)"
    by (simp add: complete_def)
  from round_incomplete(1) [OF this, of fld] assms(4)
  have "scheduled (tryNext_round e fld (suffixes_of opts) s) = 0" by simp
  with assms(1,2) show ?thesis
    by (subst tryNext.simps) (simp add: stops_def Let_def)
qed

lemma tryNext_step:
  assumes "\<not> stops opts s" and "suffixes_of opts \<noteq> []" and "complete e opts s"
  shows "tryNext e fld opts s = tryNext e fld opts (nxt e fld opts s)"
proof -
  from assms(3) have "length (settling e (length (suffixes_of opts)) (index s)) = length (suffixes_of opts)"
    by (simp add: complete_def)
  from round_complete(2) [OF this assms(2), of fld]
  have "scheduled (tryNext_round e fld (suffixes_of opts) s) = Suc (scheduled s)" .
  with assms(1,2) show ?thesis
    by (subst tryNext.simps) (simp add: stops_def Let_def nxt_def)
qed

lemma nxt_fields:
  assumes "complete e opts s" and "suffixes_of opts \<noteq> []"
  shows "index (nxt e fld opts s) = index s + 1"
    and "scheduled (nxt e fld opts s) = scheduled s"
    and "trace (nxt e fld opts s) =
           trace s @ map (Attempt (index s)) (suffixes_of opts) @
           map (outcome e fld (suffixes_of opts) (index s))
             (settling e (length (suffixes_of opts)) (index s))"
    and "found (nxt e fld opts s) =
           found s @ winner fld (suffixes_of opts) (index s)
             (hits e fld (suffixes_of opts) (index s)
                (settling e (length (suffixes_of opts)) (index s)))"
    and "consecutiveMisses (nxt e fld opts s) =
           (if hits e fld (suffixes_of opts) (index s)
                 (settling e (length (suffixes_of opts)) (index s)) \<noteq> [] then 0
            else consecutiveMisses s + 1)"
proof -
  from assms(1) have c: "length (settling e (length (suffixes_of opts)) (index s)) = length (suffixes_of opts)"
    by (simp add: complete_def)
  note rc = round_complete [OF c assms(2), of fld]
  show "index (nxt e fld opts s) = index s + 1"
    and "scheduled (nxt e fld opts s) = scheduled s"
    and "trace (nxt e fld opts s) =
           trace s @ map (Attempt (index s)) (suffixes_of opts) @
           map (outcome e fld (suffixes_of opts) (index s))
             (settling e (length (suffixes_of opts)) (index s))"
    and "found (nxt e fld opts s) =
           found s @ winner fld (suffixes_of opts) (index s)
             (hits e fld (suffixes_of opts) (index s)
                (settling e (length (suffixes_of opts)) (index s)))"
    and "consecutiveMisses (nxt e fld opts s) =
           (if hits e fld (suffixes_of opts) (index s)
                 (settling e (length (suffixes_of opts)) (index s)) \<noteq> [] then 0
            else consecutiveMisses s + 1)"
    by (simp_all add: nxt_def rc)
qed

lemma tryNext_induct [consumes 1, case_names stop empty hang step]:
  assumes "scheduled s = 0"
    and "\<And>s. scheduled s = 0 \<Longrightarrow> stops opts s \<Longrightarrow> P s"
    and "\<And>s. scheduled s = 0 \<Longrightarrow> \<not> stops opts s \<Longrightarrow> suffixes_of opts = [] \<Longrightarrow> P s"
    and "\<And>s. scheduled s = 0 \<Longrightarrow> \<not> stops opts s \<Longrightarrow> suffixes_of opts \<noteq> [] \<Longrightarrow>
           \<not> complete e opts s \<Longrightarrow> P s"
    and "\<And>s. scheduled s = 0 \<Longrightarrow> \<not> stops opts s \<Longrightarrow> suffixes_of opts \<noteq> [] \<Longrightarrow>
           complete e opts s \<Longrightarrow> P (nxt e fld opts s) \<Longrightarrow> P s"
  shows "P s"
  using assms
proof (induction e fld opts s rule: tryNext.induct)
  case (1 e fld opts s)
  show ?case
  proof (cases "stops opts s")
    case True
    with "1.prems"(1,2) show ?thesis by blast
  next
    case ns: False
    show ?thesis
    proof (cases "suffixes_of opts = []")
      case True
      with ns "1.prems"(1,3) show ?thesis by blast
    next
      case ne: False
      show ?thesis
      proof (cases "complete e opts s")
        case False
        with ns ne "1.prems"(1,4) show ?thesis by blast
      next
        case True
        then have c: "length (settling e (length (suffixes_of opts)) (index s)) = length (suffixes_of opts)"
          by (simp add: complete_def)
        let ?s1 = "tryNext_round e fld (suffixes_of opts) s"
        from round_complete(2) [OF c ne, of fld] "1.prems"(1)
        have sch: "scheduled ?s1 = Suc 0" by simp
        have eq: "?s1\<lparr>scheduled := scheduled ?s1 - 1\<rparr> = nxt e fld opts s"
          using sch "1.prems"(1) by (simp add: nxt_def)
        from ns have g: "\<not> (MAX_INDEX opts < index s \<or> CONSECUTIVE_MISS_LIMIT opts \<le> consecutiveMisses s)"
          by (simp add: stops_def)
        from sch have nz: "scheduled ?s1 \<noteq> 0" by simp
        have z: "scheduled (nxt e fld opts s) = 0"
          using "1.prems"(1) by (simp add: nxt_def)
        have "P (nxt e fld opts s)"
          using "1.IH" [OF g refl ne nz] z "1.prems"(2-5) unfolding eq by blast
        with ns ne True "1.prems"(1,5) show ?thesis by blast
      qed
    qed
  qed
qed

lemma attempts_rec: "a \<le> b \<Longrightarrow> attempts sfxs a b = map (Attempt a) sfxs @ attempts sfxs (a + 1) b"
  by (simp add: attempts_def upto_rec1 [of a b])

lemma attempts_empty: "b < a \<Longrightarrow> attempts sfxs a b = []"
  by (simp add: attempts_def)

lemma filter_Attempt_map: "filter is_Attempt (map (Attempt i) sfxs) = map (Attempt i) sfxs"
  by (induction sfxs) simp_all

lemma filter_Attempt_outcome: "filter is_Attempt (map (outcome e fld sfxs i) ps) = []"
  by (induction ps) (simp_all add: outcome_def)

lemma all_settle_complete: "all_settle e opts \<Longrightarrow> complete e opts s"
  by (simp add: all_settle_def complete_def settling_complete)

lemma complete_set:
  assumes "complete e opts s"
  shows "set (settling e (length (suffixes_of opts)) (index s)) = {0..<length (suffixes_of opts)}"
proof -
  from assms have "{0..<length (suffixes_of opts)} \<subseteq> set (order e (index s))"
    by (simp add: complete_def settling_complete)
  then show ?thesis by (auto simp: settling_set)
qed

lemma hits_iff:
  assumes "complete e opts s"
  shows "(hits e fld (suffixes_of opts) (index s)
            (settling e (length (suffixes_of opts)) (index s)) \<noteq> []) =
         exists_at e fld (suffixes_of opts) (index s)"
proof -
  have "(hits e fld (suffixes_of opts) (index s)
            (settling e (length (suffixes_of opts)) (index s)) \<noteq> []) =
        (\<exists>p \<in> set (settling e (length (suffixes_of opts)) (index s)).
            loads e (path_of fld (index s) (suffixes_of opts ! p)))"
    by (simp add: hits_def filter_empty_conv)
  also have "\<dots> = (\<exists>p < length (suffixes_of opts). loads e (path_of fld (index s) (suffixes_of opts ! p)))"
    by (simp add: complete_set [OF assms] Bex_def)
  also have "\<dots> = exists_at e fld (suffixes_of opts) (index s)"
    unfolding exists_at_def by (metis in_set_conv_nth)
  finally show ?thesis .
qed

lemma winner_is_hit:
  assumes "complete e opts s"
    and "hits e fld (suffixes_of opts) (index s)
           (settling e (length (suffixes_of opts)) (index s)) \<noteq> []"
  shows "\<exists>im. winner fld (suffixes_of opts) (index s)
                (hits e fld (suffixes_of opts) (index s)
                   (settling e (length (suffixes_of opts)) (index s))) = [im] \<and>
              is_hit e fld (suffixes_of opts) (index s) im"
proof -
  let ?hs = "hits e fld (suffixes_of opts) (index s) (settling e (length (suffixes_of opts)) (index s))"
  from assms(2) obtain p ps where hs: "?hs = p # ps" by (cases ?hs) auto
  then have "p \<in> set ?hs" by simp
  then have "p \<in> set (settling e (length (suffixes_of opts)) (index s))"
    and l: "loads e (path_of fld (index s) (suffixes_of opts ! p))"
    by (simp_all add: hits_def)
  then have "p < length (suffixes_of opts)" by (simp add: complete_set [OF assms(1)])
  then have "suffixes_of opts ! p \<in> set (suffixes_of opts)" by simp
  with l hs show ?thesis by (auto simp: winner_def is_hit_def)
qed

lemma tryNext_run:
  assumes sch: "scheduled s = 0"
    and st: "all_settle e opts" and ne: "suffixes_of opts \<noteq> []"
    and k: "0 \<le> k" "k \<le> MAX_INDEX opts" and lim: "0 < CONSECUTIVE_MISS_LIMIT opts"
    and ex: "\<forall>i\<ge>1. exists_at e fld (suffixes_of opts) i = (i \<le> k)"
    and inv: "1 \<le> index s"
      "index s \<le> min (MAX_INDEX opts) (k + CONSECUTIVE_MISS_LIMIT opts) + 1"
      "consecutiveMisses s = max 0 (index s - k - 1)"
  shows "fst (tryNext e fld opts s) = Resolved (found (snd (tryNext e fld opts s))) \<and>
         (\<exists>ws. found (snd (tryNext e fld opts s)) = found s @ ws \<and>
               list_all2 (is_hit e fld (suffixes_of opts)) [index s..k] ws) \<and>
         index (snd (tryNext e fld opts s)) =
           min (MAX_INDEX opts) (k + CONSECUTIVE_MISS_LIMIT opts) + 1 \<and>
         consecutiveMisses (snd (tryNext e fld opts s)) =
           min (MAX_INDEX opts) (k + CONSECUTIVE_MISS_LIMIT opts) - k \<and>
         filter is_Attempt (trace (snd (tryNext e fld opts s))) =
           filter is_Attempt (trace s) @
           attempts (suffixes_of opts) (index s)
             (min (MAX_INDEX opts) (k + CONSECUTIVE_MISS_LIMIT opts))"
  using sch inv
proof (induction s rule: tryNext_induct [where e = e and fld = fld and opts = opts])
  case (stop s)
  let ?stop = "min (MAX_INDEX opts) (k + CONSECUTIVE_MISS_LIMIT opts)"
  from stop.hyps(2) stop.prems k lim have i: "index s = ?stop + 1"
    by (auto simp: stops_def)
  with k lim have lt: "k < index s" by simp
  from i lt stop.prems(3) have "consecutiveMisses s = ?stop - k" by simp
  with i lt show ?case
    by (simp add: tryNext_stop [OF stop.hyps(2)] attempts_empty)
next
  case (empty s)
  with ne show ?case by simp
next
  case (hang s)
  with all_settle_complete [OF st] show ?case by simp
next
  case (step s)
  let ?stop = "min (MAX_INDEX opts) (k + CONSECUTIVE_MISS_LIMIT opts)"
  let ?sfxs = "suffixes_of opts"
  let ?hs = "hits e fld ?sfxs (index s) (settling e (length ?sfxs) (index s))"
  let ?n = "nxt e fld opts s"
  note nf = nxt_fields [OF step.hyps(4) ne, of fld]
  from step.hyps(2) step.prems k lim have le: "index s \<le> ?stop"
    by (auto simp: stops_def)
  from ex step.prems(1) hits_iff [OF step.hyps(4), of fld]
  have hk: "(?hs \<noteq> []) = (index s \<le> k)" by simp
  have m: "consecutiveMisses ?n = max 0 (index ?n - k - 1)"
    using step.prems(3) hk by (auto simp: nf)
  from step.prems(1) le have "1 \<le> index ?n" and "index ?n \<le> ?stop + 1"
    by (simp_all add: nf)
  from step.IH [OF this m] obtain ws where
    r: "fst (tryNext e fld opts ?n) = Resolved (found (snd (tryNext e fld opts ?n)))"
    and f: "found (snd (tryNext e fld opts ?n)) = found ?n @ ws"
    and l: "list_all2 (is_hit e fld ?sfxs) [index ?n..k] ws"
    and i: "index (snd (tryNext e fld opts ?n)) = ?stop + 1"
    and c: "consecutiveMisses (snd (tryNext e fld opts ?n)) = ?stop - k"
    and a: "filter is_Attempt (trace (snd (tryNext e fld opts ?n))) =
              filter is_Attempt (trace ?n) @ attempts ?sfxs (index ?n) ?stop"
    by blast
  note eq = tryNext_step [OF step.hyps(2) ne step.hyps(4), of fld]
  have w: "list_all2 (is_hit e fld ?sfxs) [index s..k] (winner fld ?sfxs (index s) ?hs @ ws)"
  proof (cases "index s \<le> k")
    case True
    with hk winner_is_hit [OF step.hyps(4), of fld] obtain im
      where "winner fld ?sfxs (index s) ?hs = [im]" and "is_hit e fld ?sfxs (index s) im"
      by blast
    with l True show ?thesis
      by (simp add: upto_rec1 [of "index s" k] nf)
  next
    case False
    with hk have "?hs = []" by simp
    with l False show ?thesis
      by (simp add: winner_def nf)
  qed
  have at: "filter is_Attempt (trace ?n) @ attempts ?sfxs (index ?n) ?stop =
            filter is_Attempt (trace s) @ attempts ?sfxs (index s) ?stop"
    by (simp add: nf filter_Attempt_map filter_Attempt_outcome attempts_rec [OF le])
  from r f i c a w at show ?case
    unfolding eq by (simp add: nf)
qed

lemma digit_inj: "m < 10 \<Longrightarrow> n < 10 \<Longrightarrow> digit m = digit n \<Longrightarrow> m = n"
proof -
  have d: "distinct ''0123456789''" by simp
  assume "m < 10" "n < 10" "digit m = digit n"
  then show "m = n"
    unfolding digit_def using nth_eq_iff_index_eq [OF d, of m n] by simp
qed

lemma decimal_nonempty: "decimal n \<noteq> []"
  by (subst decimal.simps) simp

lemma decimal_inj: "decimal m = decimal n \<Longrightarrow> m = n"
proof (induction m arbitrary: n rule: decimal.induct)
  case (1 m)
  show ?case
  proof (cases "m < 10")
    case m: True
    show ?thesis
    proof (cases "n < 10")
      case True
      with m "1.prems" have "digit m = digit n"
        by (simp add: decimal.simps [of m] decimal.simps [of n])
      with m True show ?thesis by (rule digit_inj)
    next
      case False
      with m "1.prems" decimal_nonempty [of "n div 10"] show ?thesis
        by (simp add: decimal.simps [of m] decimal.simps [of n] Cons_eq_append_conv)
    qed
  next
    case m: False
    show ?thesis
    proof (cases "n < 10")
      case True
      with m "1.prems" decimal_nonempty [of "m div 10"] show ?thesis
        by (simp add: decimal.simps [of m] decimal.simps [of n] append_eq_Cons_conv)
    next
      case False
      with m "1.prems" have a: "decimal (m div 10) = decimal (n div 10)"
        and b: "digit (m mod 10) = digit (n mod 10)"
        by (simp_all add: decimal.simps [of m] decimal.simps [of n])
      from m a have "m div 10 = n div 10" by (rule "1.IH")
      moreover from b have "m mod 10 = n mod 10" by (intro digit_inj) simp_all
      ultimately show ?thesis by (metis div_mult_mod_eq)
    qed
  qed
qed

lemma path_of_eq:
  assumes "length sfx = length sfx'" and "0 \<le> i" and "0 \<le> j"
  shows "(path_of fld i sfx = path_of fld j sfx') = (i = j \<and> sfx = sfx')"
proof -
  have "(path_of fld i sfx = path_of fld j sfx') =
        ((''Images/Products/'' @ fld @ ''/'' @ toString i @ ''.'') @ sfx =
         (''Images/Products/'' @ fld @ ''/'' @ toString j @ ''.'') @ sfx')"
    by (simp add: path_of_def)
  also have "\<dots> = (''Images/Products/'' @ fld @ ''/'' @ toString i @ ''.'' =
                   ''Images/Products/'' @ fld @ ''/'' @ toString j @ ''.'' \<and> sfx = sfx')"
    using assms(1) by (rule append_eq_append_conv [OF disjI2])
  also have "\<dots> = (toString i = toString j \<and> sfx = sfx')" by simp
  also have "\<dots> = (i = j \<and> sfx = sfx')"
    using assms(2,3) decimal_inj [of "nat i" "nat j"] by (auto simp: toString_def)
  finally show ?thesis .
qed

lemma shelf_settles: "all_settle shelf two"
  by (auto simp: all_settle_def shelf_def two_def suffixes_of_def)

lemma shelf_exists: "images_upto shelf ''Chair'' (suffixes_of two) 2"
  by (auto simp: images_upto_def exists_at_def shelf_def two_def suffixes_of_def path_of_eq)

lemma probe_start: "probeImagesInFolder e fld opts = tryNext e fld opts start"
  by (simp add: probeImagesInFolder_def start_def)

text \<open>
  Claim C2. If every request settles, the suffix array is not empty, the miss limit is
  positive, and images exist exactly at the indices 1 to \<open>k\<close> with \<open>k\<close> at most the maximal
  index, then the probe resolves with exactly \<open>k\<close> results, the \<open>j\<close>-th of them a loading path
  of index \<open>j\<close>; the last index it tries is the smaller of the maximal index and \<open>k\<close> plus
  the miss limit (\<open>idx\<close> ends one above it), and the requests it issues are exactly those of
  the indices from 1 to there.
\<close>

theorem probe_finds_prefix:
  assumes "all_settle e opts" and "suffixes_of opts \<noteq> []"
    and "0 \<le> k" and "k \<le> MAX_INDEX opts" and "0 < CONSECUTIVE_MISS_LIMIT opts"
    and "images_upto e fld (suffixes_of opts) k"
  shows "fst (probeImagesInFolder e fld opts) =
           Resolved (found (snd (probeImagesInFolder e fld opts))) \<and>
         length (found (snd (probeImagesInFolder e fld opts))) = nat k \<and>
         list_all2 (is_hit e fld (suffixes_of opts)) [1..k]
           (found (snd (probeImagesInFolder e fld opts))) \<and>
         index (snd (probeImagesInFolder e fld opts)) =
           min (MAX_INDEX opts) (k + CONSECUTIVE_MISS_LIMIT opts) + 1 \<and>
         filter is_Attempt (trace (snd (probeImagesInFolder e fld opts))) =
           attempts (suffixes_of opts) 1 (min (MAX_INDEX opts) (k + CONSECUTIVE_MISS_LIMIT opts))"
proof -
  have sch: "scheduled start = 0" and i1: "1 \<le> index start"
    by (simp_all add: start_def)
  from assms(3-5) have i2: "index start \<le> min (MAX_INDEX opts) (k + CONSECUTIVE_MISS_LIMIT opts) + 1"
    by (simp add: start_def)
  from assms(3) have m: "consecutiveMisses start = max 0 (index start - k - 1)"
    by (simp add: start_def)
  from assms(6) have ex: "\<forall>i\<ge>1. exists_at e fld (suffixes_of opts) i = (i \<le> k)"
    by (simp add: images_upto_def)
  from tryNext_run [OF sch assms(1-5) ex i1 i2 m] obtain ws where
    r: "fst (tryNext e fld opts start) = Resolved (found (snd (tryNext e fld opts start)))"
    and f: "found (snd (tryNext e fld opts start)) = ws"
    and l: "list_all2 (is_hit e fld (suffixes_of opts)) [1..k] ws"
    and i: "index (snd (tryNext e fld opts start)) =
              min (MAX_INDEX opts) (k + CONSECUTIVE_MISS_LIMIT opts) + 1"
    and a: "filter is_Attempt (trace (snd (tryNext e fld opts start))) =
              attempts (suffixes_of opts) 1 (min (MAX_INDEX opts) (k + CONSECUTIVE_MISS_LIMIT opts))"
    by (auto simp: start_def)
  from list_all2_lengthD [OF l] assms(3) have "length ws = nat k" by simp
  with r f l i a show ?thesis by (simp add: probe_start)
qed

text \<open>
  Claim C2 on a folder with \<open>1.jpg\<close>, \<open>2.jpg\<close> and \<open>2.png\<close>, probed with the suffixes \<open>jpg\<close> and
  \<open>png\<close>, limits 20 and 5, \<open>png\<close> settling first: two results, the last index tried is 7.
\<close>

theorem probe_finds_prefix_witness:
  "all_settle shelf two \<and> suffixes_of two \<noteq> [] \<and> (0::int) \<le> 2 \<and> 2 \<le> MAX_INDEX two \<and>
   0 < CONSECUTIVE_MISS_LIMIT two \<and>
   images_upto shelf ''Chair'' (suffixes_of two) 2 \<and>
   fst (probeImagesInFolder shelf ''Chair'' two) =
     Resolved [\<lparr>file' = ''Images/Products/Chair/1.jpg'', alt = []\<rparr>,
               \<lparr>file' = ''Images/Products/Chair/2.png'', alt = []\<rparr>] \<and>
   length (found (snd (probeImagesInFolder shelf ''Chair'' two))) = 2 \<and>
   index (snd (probeImagesInFolder shelf ''Chair'' two)) = 8 \<and>
   filter is_Attempt (trace (snd (probeImagesInFolder shelf ''Chair'' two))) =
     attempts [''jpg'', ''png''] 1 7"
proof -
  have h: "suffixes_of two \<noteq> []" "(0::int) \<le> 2" "2 \<le> MAX_INDEX two"
    "0 < CONSECUTIVE_MISS_LIMIT two"
    by (simp_all add: two_def suffixes_of_def MAX_INDEX_def CONSECUTIVE_MISS_LIMIT_def)
  have v: "found (snd (probeImagesInFolder shelf ''Chair'' two)) =
     [\<lparr>file' = ''Images/Products/Chair/1.jpg'', alt = []\<rparr>,
      \<lparr>file' = ''Images/Products/Chair/2.png'', alt = []\<rparr>]"
    by code_simp
  have n: "min (MAX_INDEX two) (2 + CONSECUTIVE_MISS_LIMIT two) = 7" "suffixes_of two = [''jpg'', ''png'']"
    by (simp_all add: two_def suffixes_of_def MAX_INDEX_def CONSECUTIVE_MISS_LIMIT_def)
  from probe_finds_prefix [OF shelf_settles h shelf_exists] shelf_settles shelf_exists h v n
  show ?thesis by simp
qed

lemma tryNext_resolves:
  assumes "scheduled s = 0" and "all_settle e opts"
  shows "fst (tryNext e fld opts s) = Resolved (found (snd (tryNext e fld opts s)))"
  using assms(1)
proof (induction s rule: tryNext_induct [where e = e and fld = fld and opts = opts])
  case (stop s)
  then show ?case by (simp add: tryNext_stop)
next
  case (empty s)
  then show ?case by (simp add: tryNext_empty)
next
  case (hang s)
  with all_settle_complete [OF assms(2)] show ?case by simp
next
  case (step s)
  then show ?case by (simp add: tryNext_step)
qed

lemma tryNext_nothing:
  assumes "scheduled s = 0" and "\<forall>i. \<not> exists_at e fld (suffixes_of opts) i"
  shows "found (snd (tryNext e fld opts s)) = found s"
  using assms(1)
proof (induction s rule: tryNext_induct [where e = e and fld = fld and opts = opts])
  case (stop s)
  then show ?case by (simp add: tryNext_stop)
next
  case (empty s)
  then show ?case by (simp add: tryNext_empty)
next
  case (hang s)
  let ?sfxs = "suffixes_of opts"
  let ?ps = "settling e (length ?sfxs) (index s)"
  let ?s0 = "s\<lparr>loadedThisIndex := False, remaining := int (length ?sfxs),
               trace := trace s @ map (Attempt (index s)) ?sfxs\<rparr>"
  have sub: "set ?ps \<subseteq> {0..<length ?sfxs}" by (auto simp: settling_set)
  have "hits e fld ?sfxs (index s) ?ps = []"
  proof -
    have "\<forall>p \<in> set ?ps. \<not> loads e (path_of fld (index s) (?sfxs ! p))"
    proof
      fix p assume "p \<in> set ?ps"
      with sub have "?sfxs ! p \<in> set ?sfxs" by auto
      with assms(2) show "\<not> loads e (path_of fld (index s) (?sfxs ! p))"
        by (auto simp: exists_at_def)
    qed
    then show ?thesis by (simp add: hits_def filter_empty_conv)
  qed
  moreover from hang.hyps(4) length_settling [of e "length ?sfxs" "index s"]
  have "int (length ?ps) < remaining ?s0" by (simp add: complete_def)
  note fold_settle_early [OF this, of e fld "index s" ?sfxs]
  ultimately have "found (tryNext_round e fld ?sfxs s) = found s"
    by (simp add: tryNext_round_def winner_def)
  with hang show ?case by (simp add: tryNext_hang)
next
  case (step s)
  from assms(2) hits_iff [OF step.hyps(4), of fld]
  have "hits e fld (suffixes_of opts) (index s)
          (settling e (length (suffixes_of opts)) (index s)) = []" by simp
  with step show ?case
    by (simp add: tryNext_step nxt_fields winner_def)
qed

lemma tryNext_not_rejected:
  assumes "scheduled s = 0"
  shows "fst (tryNext e fld opts s) \<noteq> Rejected err"
  using assms
proof (induction s rule: tryNext_induct [where e = e and fld = fld and opts = opts])
  case (stop s)
  then show ?case by (simp add: tryNext_stop)
next
  case (empty s)
  then show ?case by (simp add: tryNext_empty)
next
  case (hang s)
  then show ?case by (simp add: tryNext_hang)
next
  case (step s)
  then show ?case by (simp add: tryNext_step)
qed

text \<open>
  Claim C3. The promise of the probe is never rejected: the model has no path to a
  rejection, whatever the folder, the options and the environment. If every request
  settles (each with \<open>onload\<close> or \<open>onerror\<close>, whatever the outcomes), the promise is
  resolved. If moreover no candidate path of the folder loads, it is resolved with the
  empty array; and then, with a non-empty suffix array, a positive miss limit and a
  non-negative maximal index, the miss counter ends at the smaller of the miss limit and
  the maximal index, with requests issued for exactly that many indices.
\<close>

theorem probe_always_resolves:
  "(\<forall>err. fst (probeImagesInFolder e fld opts) \<noteq> Rejected err) \<and>
   (all_settle e opts \<longrightarrow> (\<exists>xs. fst (probeImagesInFolder e fld opts) = Resolved xs)) \<and>
   (all_settle e opts \<and> (\<forall>i. \<not> exists_at e fld (suffixes_of opts) i) \<longrightarrow>
      fst (probeImagesInFolder e fld opts) = Resolved []) \<and>
   (all_settle e opts \<and> (\<forall>i. \<not> exists_at e fld (suffixes_of opts) i) \<and>
    suffixes_of opts \<noteq> [] \<and> 0 < CONSECUTIVE_MISS_LIMIT opts \<and> 0 \<le> MAX_INDEX opts \<longrightarrow>
      consecutiveMisses (snd (probeImagesInFolder e fld opts)) =
        min (MAX_INDEX opts) (CONSECUTIVE_MISS_LIMIT opts) \<and>
      filter is_Attempt (trace (snd (probeImagesInFolder e fld opts))) =
        attempts (suffixes_of opts) 1 (min (MAX_INDEX opts) (CONSECUTIVE_MISS_LIMIT opts)))"
proof -
  have sch: "scheduled start = 0" by (simp add: start_def)
  have z: "fst (probeImagesInFolder e fld opts) \<noteq> Rejected err" for err
    using tryNext_not_rejected [OF sch] by (simp add: probe_start)
  have a: "\<exists>xs. fst (probeImagesInFolder e fld opts) = Resolved xs"
    if "all_settle e opts"
    using tryNext_resolves [OF sch that, of fld] by (simp add: probe_start)
  have b: "fst (probeImagesInFolder e fld opts) = Resolved []"
    if "all_settle e opts" and "\<forall>i. \<not> exists_at e fld (suffixes_of opts) i"
    using tryNext_resolves [OF sch that(1), of fld] tryNext_nothing [OF sch that(2)]
    by (simp add: probe_start start_def)
  have c: "consecutiveMisses (snd (probeImagesInFolder e fld opts)) =
              min (MAX_INDEX opts) (CONSECUTIVE_MISS_LIMIT opts) \<and>
            filter is_Attempt (trace (snd (probeImagesInFolder e fld opts))) =
              attempts (suffixes_of opts) 1 (min (MAX_INDEX opts) (CONSECUTIVE_MISS_LIMIT opts))"
    if st: "all_settle e opts"
      and n: "\<forall>i. \<not> exists_at e fld (suffixes_of opts) i" and ne: "suffixes_of opts \<noteq> []"
      and lim: "0 < CONSECUTIVE_MISS_LIMIT opts" and mx: "0 \<le> MAX_INDEX opts"
  proof -
    from n have ex: "\<forall>i\<ge>1. exists_at e fld (suffixes_of opts) i = (i \<le> 0)" by simp
    have i1: "1 \<le> index start" by (simp add: start_def)
    from lim mx have i2: "index start \<le> min (MAX_INDEX opts) (0 + CONSECUTIVE_MISS_LIMIT opts) + 1"
      by (simp add: start_def)
    have m: "consecutiveMisses start = max 0 (index start - 0 - 1)" by (simp add: start_def)
    from tryNext_run [OF sch st ne order_refl mx lim ex i1 i2 m]
    show ?thesis by (simp add: probe_start start_def)
  qed
  from z a b c show ?thesis by blast
qed

text \<open>
  Claim C3 with the options the cards pass (20 and 5, the default suffixes) on a folder
  without images: resolved with the empty array after 5 misses.
\<close>

theorem probe_always_resolves_witness:
  "all_settle bare card_options \<and>
   (\<forall>i. \<not> exists_at bare ''Cot'' (suffixes_of card_options) i) \<and>
   suffixes_of card_options \<noteq> [] \<and> 0 < CONSECUTIVE_MISS_LIMIT card_options \<and>
   0 \<le> MAX_INDEX card_options \<and>
   fst (probeImagesInFolder bare ''Cot'' card_options) = Resolved [] \<and>
   consecutiveMisses (snd (probeImagesInFolder bare ''Cot'' card_options)) = 5 \<and>
   filter is_Attempt (trace (snd (probeImagesInFolder bare ''Cot'' card_options))) =
     attempts [''jpg'', ''jpeg'', ''png'', ''webp''] 1 5"
proof -
  have s: "all_settle bare card_options"
    by (auto simp: all_settle_def bare_def card_options_def suffixes_of_def)
  have n: "\<forall>i. \<not> exists_at bare ''Cot'' (suffixes_of card_options) i"
    by (simp add: exists_at_def bare_def)
  have h: "suffixes_of card_options = [''jpg'', ''jpeg'', ''png'', ''webp'']"
    "CONSECUTIVE_MISS_LIMIT card_options = 5" "MAX_INDEX card_options = 20"
    by (simp_all add: card_options_def suffixes_of_def MAX_INDEX_def CONSECUTIVE_MISS_LIMIT_def)
  from probe_always_resolves [of bare "''Cot''" card_options] s n h
  show ?thesis by simp
qed

text \<open>
  The hypothesis that every request settles is needed: on the server without images, if
  the last of the four requests of each index never settles, \<open>remaining\<close> stays at 1 after
  the first round, no \<open>tryNext\<close> is scheduled and the promise stays pending.
\<close>

lemma probe_pending_example:
  "fst (probeImagesInFolder (bare\<lparr>order := (\<lambda>i. [0, 2, 1])\<rparr>) ''Cot'' card_options) = Pending \<and>
   remaining (snd (probeImagesInFolder (bare\<lparr>order := (\<lambda>i. [0, 2, 1])\<rparr>) ''Cot'' card_options)) = 1 \<and>
   index (snd (probeImagesInFolder (bare\<lparr>order := (\<lambda>i. [0, 2, 1])\<rparr>) ''Cot'' card_options)) = 1"
  by code_simp

text \<open>
  Claim C4. With an empty suffix array the probe resolves with the empty array and does
  nothing else: the trace is the one call of \<open>resolve\<close>, with no request before it.
\<close>

theorem probe_no_suffixes:
  assumes "suffixes opts = Some []"
  shows "fst (probeImagesInFolder e fld opts) = Resolved [] \<and>
         trace (snd (probeImagesInFolder e fld opts)) = [Resolve []]"
proof -
  from assms have em: "suffixes_of opts = []" by (simp add: suffixes_of_def)
  show ?thesis
  proof (cases "stops opts start")
    case True
    then show ?thesis by (simp add: probe_start tryNext_stop) (simp add: start_def)
  next
    case False
    then show ?thesis by (simp add: probe_start tryNext_empty [OF False em]) (simp add: start_def)
  qed
qed

text \<open>
  Claim C4 with the limits the cards pass and an empty suffix array.
\<close>

theorem probe_no_suffixes_witness:
  "suffixes \<lparr>maxIndex = Some 20, missLimit = Some 5, suffixes = Some []\<rparr> = Some [] \<and>
   fst (probeImagesInFolder shelf ''Chair'' \<lparr>maxIndex = Some 20, missLimit = Some 5, suffixes = Some []\<rparr>)
     = Resolved [] \<and>
   trace (snd (probeImagesInFolder shelf ''Chair''
       \<lparr>maxIndex = Some 20, missLimit = Some 5, suffixes = Some []\<rparr>)) = [Resolve []]"
  using probe_no_suffixes [of "\<lparr>maxIndex = Some 20, missLimit = Some 5, suffixes = Some []\<rparr>" shelf "''Chair''"]
  by simp

lemma tryNext_same_limits:
  assumes "MAX_INDEX opts' = MAX_INDEX opts"
    and "CONSECUTIVE_MISS_LIMIT opts' = CONSECUTIVE_MISS_LIMIT opts"
    and "suffixes_of opts' = suffixes_of opts"
  shows "tryNext e fld opts' s = tryNext e fld opts s"
  using assms
proof (induction e fld opts s rule: tryNext.induct)
  case (1 e fld opts s)
  let ?s1 = "tryNext_round e fld (suffixes_of opts) s"
  show ?case
  proof (cases "\<not> (MAX_INDEX opts < index s \<or> CONSECUTIVE_MISS_LIMIT opts \<le> consecutiveMisses s)
                \<and> suffixes_of opts \<noteq> [] \<and> scheduled ?s1 \<noteq> 0")
    case True
    then have g: "\<not> (MAX_INDEX opts < index s \<or> CONSECUTIVE_MISS_LIMIT opts \<le> consecutiveMisses s)"
      and ne: "suffixes_of opts \<noteq> []" and nz: "scheduled ?s1 \<noteq> 0"
      by simp_all
    from "1.IH" [OF g refl ne nz "1.prems"]
    have "tryNext e fld opts' (?s1\<lparr>scheduled := scheduled ?s1 - 1\<rparr>) =
          tryNext e fld opts (?s1\<lparr>scheduled := scheduled ?s1 - 1\<rparr>)" .
    with True "1.prems" show ?thesis
      by (subst tryNext.simps [of e fld opts'], subst tryNext.simps [of e fld opts])
         (simp add: Let_def)
  next
    case False
    with "1.prems" show ?thesis
      by (subst tryNext.simps [of e fld opts'], subst tryNext.simps [of e fld opts])
         (auto simp: Let_def)
  qed
qed

lemma tryNext_first_round:
  assumes "scheduled s = 0" and "\<not> stops opts s" and "suffixes_of opts \<noteq> []"
  shows "\<exists>t. trace (snd (tryNext e fld opts s)) =
              trace s @ map (Attempt (index s)) (suffixes_of opts) @ t"
proof -
  have ext: "\<exists>t. trace (snd (tryNext e fld opts s')) = trace s' @ t" if "scheduled s' = 0" for s'
    using that
  proof (induction s' rule: tryNext_induct [where e = e and fld = fld and opts = opts])
    case (stop s)
    then show ?case by (simp add: tryNext_stop)
  next
    case (empty s)
    then show ?case by (simp add: tryNext_empty)
  next
    case (hang s)
    then have "length (settling e (length (suffixes_of opts)) (index s)) \<noteq> length (suffixes_of opts)"
      by (simp add: complete_def)
    from round_incomplete(2) [OF this, of fld] hang show ?case
      by (simp add: tryNext_hang)
  next
    case (step s)
    then show ?case by (auto simp: tryNext_step nxt_fields)
  qed
  show ?thesis
  proof (cases "complete e opts s")
    case True
    have "scheduled (nxt e fld opts s) = 0"
      using assms(1) by (simp add: nxt_fields [OF True assms(3)])
    from ext [OF this] show ?thesis
      by (auto simp: tryNext_step [OF assms(2,3) True] nxt_fields [OF True assms(3)])
  next
    case False
    then have "length (settling e (length (suffixes_of opts)) (index s)) \<noteq> length (suffixes_of opts)"
      by (simp add: complete_def)
    from round_incomplete(2) [OF this, of fld] show ?thesis
      by (simp add: tryNext_hang [OF assms(2,3) False assms(1)])
  qed
qed

lemma probe_without_images:
  assumes "all_settle e opts" and "\<forall>i. \<not> exists_at e fld (suffixes_of opts) i"
    and "suffixes_of opts \<noteq> []"
    and "0 < CONSECUTIVE_MISS_LIMIT opts" and "0 \<le> MAX_INDEX opts"
  shows "fst (probeImagesInFolder e fld opts) = Resolved [] \<and>
         consecutiveMisses (snd (probeImagesInFolder e fld opts)) =
           min (MAX_INDEX opts) (CONSECUTIVE_MISS_LIMIT opts) \<and>
         index (snd (probeImagesInFolder e fld opts)) =
           min (MAX_INDEX opts) (CONSECUTIVE_MISS_LIMIT opts) + 1 \<and>
         filter is_Attempt (trace (snd (probeImagesInFolder e fld opts))) =
           attempts (suffixes_of opts) 1 (min (MAX_INDEX opts) (CONSECUTIVE_MISS_LIMIT opts))"
proof -
  have sch: "scheduled start = 0" and i1: "1 \<le> index start"
    by (simp_all add: start_def)
  from assms(2) have ex: "\<forall>i\<ge>1. exists_at e fld (suffixes_of opts) i = (i \<le> 0)" by simp
  from assms(4,5)
  have i2: "index start \<le> min (MAX_INDEX opts) (0 + CONSECUTIVE_MISS_LIMIT opts) + 1"
    by (simp add: start_def)
  have m: "consecutiveMisses start = max 0 (index start - 0 - 1)" by (simp add: start_def)
  from tryNext_run [OF sch assms(1,3) order_refl assms(5,4) ex i1 i2 m]
    tryNext_nothing [OF sch assms(2)]
  show ?thesis by (simp add: probe_start) (simp add: start_def)
qed

text \<open>
  Claim C10. With a \<open>maxIndex\<close> of 0 the maximal index in force is 12, and with a
  \<open>missLimit\<close> of 0 the miss limit in force is 4. A \<open>maxIndex\<close> of 0 gives the same probe
  as 12 and as an absent \<open>maxIndex\<close>, a \<open>missLimit\<close> of 0 the same probe as 4 and as an
  absent \<open>missLimit\<close>, whatever the other options, the folder and the environment. A
  \<open>missLimit\<close> of 0 does not end the probe at once: the requests of index 1 are issued
  first (unless the suffix array is empty or the maximal index is negative), and on a
  folder without images, where every request settles, the probe with a \<open>missLimit\<close> of 0
  ends after exactly 4 misses, having tried the indices 1 to 4 (when the maximal index
  allows 4); the probe with a \<open>maxIndex\<close> of 0 and a miss limit of 12 or more ends after
  it has tried exactly the indices 1 to 12.
\<close>

theorem zero_options_are_defaults:
  "probeImagesInFolder e fld \<lparr>maxIndex = Some 0, missLimit = ml, suffixes = sf\<rparr> =
     probeImagesInFolder e fld \<lparr>maxIndex = Some 12, missLimit = ml, suffixes = sf\<rparr> \<and>
   probeImagesInFolder e fld \<lparr>maxIndex = Some 0, missLimit = ml, suffixes = sf\<rparr> =
     probeImagesInFolder e fld \<lparr>maxIndex = None, missLimit = ml, suffixes = sf\<rparr> \<and>
   probeImagesInFolder e fld \<lparr>maxIndex = mi, missLimit = Some 0, suffixes = sf\<rparr> =
     probeImagesInFolder e fld \<lparr>maxIndex = mi, missLimit = Some 4, suffixes = sf\<rparr> \<and>
   probeImagesInFolder e fld \<lparr>maxIndex = mi, missLimit = Some 0, suffixes = sf\<rparr> =
     probeImagesInFolder e fld \<lparr>maxIndex = mi, missLimit = None, suffixes = sf\<rparr> \<and>
   probeImagesInFolder e fld \<lparr>maxIndex = Some 0, missLimit = Some 0, suffixes = sf\<rparr> =
     probeImagesInFolder e fld \<lparr>maxIndex = Some 12, missLimit = Some 4, suffixes = sf\<rparr> \<and>
   (\<exists>t. trace (snd (probeImagesInFolder e fld \<lparr>maxIndex = Some 0, missLimit = Some 0, suffixes = None\<rparr>)) =
          [Attempt 1 ''jpg'', Attempt 1 ''jpeg'', Attempt 1 ''png'', Attempt 1 ''webp''] @ t) \<and>
   (1 \<le> MAX_INDEX \<lparr>maxIndex = mi, missLimit = Some 0, suffixes = sf\<rparr> \<and> sf \<noteq> Some [] \<longrightarrow>
      (\<exists>t. trace (snd (probeImagesInFolder e fld \<lparr>maxIndex = mi, missLimit = Some 0, suffixes = sf\<rparr>)) =
            map (Attempt 1) (suffixes_of \<lparr>maxIndex = mi, missLimit = Some 0, suffixes = sf\<rparr>) @ t)) \<and>
   MAX_INDEX \<lparr>maxIndex = Some 0, missLimit = ml, suffixes = sf\<rparr> = 12 \<and>
   CONSECUTIVE_MISS_LIMIT \<lparr>maxIndex = mi, missLimit = Some 0, suffixes = sf\<rparr> = 4 \<and>
   (all_settle e \<lparr>maxIndex = mi, missLimit = Some 0, suffixes = sf\<rparr> \<and>
    (\<forall>i. \<not> exists_at e fld (suffixes_of \<lparr>maxIndex = mi, missLimit = Some 0, suffixes = sf\<rparr>) i) \<and>
    sf \<noteq> Some [] \<and> 4 \<le> MAX_INDEX \<lparr>maxIndex = mi, missLimit = Some 0, suffixes = sf\<rparr> \<longrightarrow>
      fst (probeImagesInFolder e fld \<lparr>maxIndex = mi, missLimit = Some 0, suffixes = sf\<rparr>) = Resolved [] \<and>
      consecutiveMisses (snd (probeImagesInFolder e fld
        \<lparr>maxIndex = mi, missLimit = Some 0, suffixes = sf\<rparr>)) = 4 \<and>
      index (snd (probeImagesInFolder e fld
        \<lparr>maxIndex = mi, missLimit = Some 0, suffixes = sf\<rparr>)) = 5 \<and>
      filter is_Attempt (trace (snd (probeImagesInFolder e fld
        \<lparr>maxIndex = mi, missLimit = Some 0, suffixes = sf\<rparr>))) =
        attempts (suffixes_of \<lparr>maxIndex = mi, missLimit = Some 0, suffixes = sf\<rparr>) 1 4) \<and>
   (all_settle e \<lparr>maxIndex = Some 0, missLimit = ml, suffixes = sf\<rparr> \<and>
    (\<forall>i. \<not> exists_at e fld (suffixes_of \<lparr>maxIndex = Some 0, missLimit = ml, suffixes = sf\<rparr>) i) \<and>
    sf \<noteq> Some [] \<and>
    12 \<le> CONSECUTIVE_MISS_LIMIT \<lparr>maxIndex = Some 0, missLimit = ml, suffixes = sf\<rparr> \<longrightarrow>
      fst (probeImagesInFolder e fld \<lparr>maxIndex = Some 0, missLimit = ml, suffixes = sf\<rparr>) = Resolved [] \<and>
      consecutiveMisses (snd (probeImagesInFolder e fld
        \<lparr>maxIndex = Some 0, missLimit = ml, suffixes = sf\<rparr>)) = 12 \<and>
      index (snd (probeImagesInFolder e fld
        \<lparr>maxIndex = Some 0, missLimit = ml, suffixes = sf\<rparr>)) = 13 \<and>
      filter is_Attempt (trace (snd (probeImagesInFolder e fld
        \<lparr>maxIndex = Some 0, missLimit = ml, suffixes = sf\<rparr>))) =
        attempts (suffixes_of \<lparr>maxIndex = Some 0, missLimit = ml, suffixes = sf\<rparr>) 1 12)"
proof -
  have eq: "probeImagesInFolder e fld a = probeImagesInFolder e fld b"
    if "MAX_INDEX a = MAX_INDEX b" "CONSECUTIVE_MISS_LIMIT a = CONSECUTIVE_MISS_LIMIT b"
      "suffixes_of a = suffixes_of b" for a b
    unfolding probeImagesInFolder_def using that by (rule tryNext_same_limits)
  let ?z = "\<lparr>maxIndex = Some 0, missLimit = Some 0, suffixes = None\<rparr>"
  have "scheduled start = 0" and "\<not> stops ?z start" and "suffixes_of ?z \<noteq> []"
    by (simp_all add: start_def stops_def MAX_INDEX_def CONSECUTIVE_MISS_LIMIT_def suffixes_of_def)
  from tryNext_first_round [OF this, of e fld]
  have "\<exists>t. trace (snd (probeImagesInFolder e fld ?z)) =
          [Attempt 1 ''jpg'', Attempt 1 ''jpeg'', Attempt 1 ''png'', Attempt 1 ''webp''] @ t"
    by (simp add: probe_start) (simp add: start_def suffixes_of_def)
  moreover have "\<exists>t. trace (snd (probeImagesInFolder e fld \<lparr>maxIndex = mi, missLimit = Some 0, suffixes = sf\<rparr>)) =
            map (Attempt 1) (suffixes_of \<lparr>maxIndex = mi, missLimit = Some 0, suffixes = sf\<rparr>) @ t"
    if "1 \<le> MAX_INDEX \<lparr>maxIndex = mi, missLimit = Some 0, suffixes = sf\<rparr>" and "sf \<noteq> Some []"
  proof -
    let ?o = "\<lparr>maxIndex = mi, missLimit = Some 0, suffixes = sf\<rparr>"
    from that(1) have "scheduled start = 0" and "\<not> stops ?o start"
      by (simp_all add: start_def stops_def CONSECUTIVE_MISS_LIMIT_def)
    moreover from that(2) have "suffixes_of ?o \<noteq> []"
      by (cases sf) (simp_all add: suffixes_of_def)
    ultimately show ?thesis
      using tryNext_first_round [of start ?o e fld]
      by (simp add: probe_start) (simp add: start_def)
  qed
  moreover have "probeImagesInFolder e fld \<lparr>maxIndex = Some 0, missLimit = ml, suffixes = sf\<rparr> =
     probeImagesInFolder e fld \<lparr>maxIndex = Some 12, missLimit = ml, suffixes = sf\<rparr>"
    by (rule eq) (simp_all add: MAX_INDEX_def CONSECUTIVE_MISS_LIMIT_def suffixes_of_def)
  moreover have "probeImagesInFolder e fld \<lparr>maxIndex = Some 0, missLimit = ml, suffixes = sf\<rparr> =
     probeImagesInFolder e fld \<lparr>maxIndex = None, missLimit = ml, suffixes = sf\<rparr>"
    by (rule eq) (simp_all add: MAX_INDEX_def CONSECUTIVE_MISS_LIMIT_def suffixes_of_def)
  moreover have "probeImagesInFolder e fld \<lparr>maxIndex = mi, missLimit = Some 0, suffixes = sf\<rparr> =
     probeImagesInFolder e fld \<lparr>maxIndex = mi, missLimit = Some 4, suffixes = sf\<rparr>"
    by (rule eq) (simp_all add: MAX_INDEX_def CONSECUTIVE_MISS_LIMIT_def suffixes_of_def)
  moreover have "probeImagesInFolder e fld \<lparr>maxIndex = mi, missLimit = Some 0, suffixes = sf\<rparr> =
     probeImagesInFolder e fld \<lparr>maxIndex = mi, missLimit = None, suffixes = sf\<rparr>"
    by (rule eq) (simp_all add: MAX_INDEX_def CONSECUTIVE_MISS_LIMIT_def suffixes_of_def)
  moreover have "probeImagesInFolder e fld \<lparr>maxIndex = Some 0, missLimit = Some 0, suffixes = sf\<rparr> =
     probeImagesInFolder e fld \<lparr>maxIndex = Some 12, missLimit = Some 4, suffixes = sf\<rparr>"
    by (rule eq) (simp_all add: MAX_INDEX_def CONSECUTIVE_MISS_LIMIT_def suffixes_of_def)
  moreover have mx: "MAX_INDEX \<lparr>maxIndex = Some 0, missLimit = ml, suffixes = sf\<rparr> = 12"
    by (simp add: MAX_INDEX_def)
  moreover have lm: "CONSECUTIVE_MISS_LIMIT \<lparr>maxIndex = mi, missLimit = Some 0, suffixes = sf\<rparr> = 4"
    by (simp add: CONSECUTIVE_MISS_LIMIT_def)
  moreover have "fst (probeImagesInFolder e fld \<lparr>maxIndex = mi, missLimit = Some 0, suffixes = sf\<rparr>) = Resolved [] \<and>
      consecutiveMisses (snd (probeImagesInFolder e fld
        \<lparr>maxIndex = mi, missLimit = Some 0, suffixes = sf\<rparr>)) = 4 \<and>
      index (snd (probeImagesInFolder e fld
        \<lparr>maxIndex = mi, missLimit = Some 0, suffixes = sf\<rparr>)) = 5 \<and>
      filter is_Attempt (trace (snd (probeImagesInFolder e fld
        \<lparr>maxIndex = mi, missLimit = Some 0, suffixes = sf\<rparr>))) =
        attempts (suffixes_of \<lparr>maxIndex = mi, missLimit = Some 0, suffixes = sf\<rparr>) 1 4"
    if "all_settle e \<lparr>maxIndex = mi, missLimit = Some 0, suffixes = sf\<rparr>"
      and "\<forall>i. \<not> exists_at e fld (suffixes_of \<lparr>maxIndex = mi, missLimit = Some 0, suffixes = sf\<rparr>) i"
      and "sf \<noteq> Some []"
      and "4 \<le> MAX_INDEX \<lparr>maxIndex = mi, missLimit = Some 0, suffixes = sf\<rparr>"
  proof -
    let ?o = "\<lparr>maxIndex = mi, missLimit = Some 0, suffixes = sf\<rparr>"
    from that(3) have ne: "suffixes_of ?o \<noteq> []"
      by (cases sf) (simp_all add: suffixes_of_def)
    from lm have l: "0 < CONSECUTIVE_MISS_LIMIT ?o" by simp
    from that(4) have m: "0 \<le> MAX_INDEX ?o" by simp
    from that(4) lm have "min (MAX_INDEX ?o) (CONSECUTIVE_MISS_LIMIT ?o) = 4" by simp
    with probe_without_images [OF that(1,2) ne l m] show ?thesis by simp
  qed
  moreover have "fst (probeImagesInFolder e fld \<lparr>maxIndex = Some 0, missLimit = ml, suffixes = sf\<rparr>) = Resolved [] \<and>
      consecutiveMisses (snd (probeImagesInFolder e fld
        \<lparr>maxIndex = Some 0, missLimit = ml, suffixes = sf\<rparr>)) = 12 \<and>
      index (snd (probeImagesInFolder e fld
        \<lparr>maxIndex = Some 0, missLimit = ml, suffixes = sf\<rparr>)) = 13 \<and>
      filter is_Attempt (trace (snd (probeImagesInFolder e fld
        \<lparr>maxIndex = Some 0, missLimit = ml, suffixes = sf\<rparr>))) =
        attempts (suffixes_of \<lparr>maxIndex = Some 0, missLimit = ml, suffixes = sf\<rparr>) 1 12"
    if "all_settle e \<lparr>maxIndex = Some 0, missLimit = ml, suffixes = sf\<rparr>"
      and "\<forall>i. \<not> exists_at e fld (suffixes_of \<lparr>maxIndex = Some 0, missLimit = ml, suffixes = sf\<rparr>) i"
      and "sf \<noteq> Some []"
      and "12 \<le> CONSECUTIVE_MISS_LIMIT \<lparr>maxIndex = Some 0, missLimit = ml, suffixes = sf\<rparr>"
  proof -
    let ?o = "\<lparr>maxIndex = Some 0, missLimit = ml, suffixes = sf\<rparr>"
    from that(3) have ne: "suffixes_of ?o \<noteq> []"
      by (cases sf) (simp_all add: suffixes_of_def)
    from that(4) have l: "0 < CONSECUTIVE_MISS_LIMIT ?o" by simp
    from mx have m: "0 \<le> MAX_INDEX ?o" by simp
    from that(4) mx have "min (MAX_INDEX ?o) (CONSECUTIVE_MISS_LIMIT ?o) = 12" by simp
    with probe_without_images [OF that(1,2) ne l m] show ?thesis by simp
  qed
  ultimately show ?thesis by blast
qed

text \<open>
  Claim C10 on the server without images, with the default suffixes: with \<open>missLimit\<close> 0
  and no \<open>maxIndex\<close> the request of index 1 is issued and the probe ends after 4 misses;
  with \<open>maxIndex\<close> 0 and a miss limit of 20 it ends after the indices 1 to 12.
\<close>

theorem zero_options_are_defaults_witness:
  "1 \<le> MAX_INDEX \<lparr>maxIndex = None, missLimit = Some 0, suffixes = None\<rparr> \<and>
   4 \<le> MAX_INDEX \<lparr>maxIndex = None, missLimit = Some 0, suffixes = None\<rparr> \<and>
   12 \<le> CONSECUTIVE_MISS_LIMIT \<lparr>maxIndex = Some 0, missLimit = Some 20, suffixes = None\<rparr> \<and>
   (None :: string list option) \<noteq> Some [] \<and>
   all_settle bare \<lparr>maxIndex = None, missLimit = Some 0, suffixes = None\<rparr> \<and>
   all_settle bare \<lparr>maxIndex = Some 0, missLimit = Some 20, suffixes = None\<rparr> \<and>
   (\<forall>i. \<not> exists_at bare ''Cot''
      (suffixes_of \<lparr>maxIndex = None, missLimit = Some 0, suffixes = None\<rparr>) i) \<and>
   (\<forall>i. \<not> exists_at bare ''Cot''
      (suffixes_of \<lparr>maxIndex = Some 0, missLimit = Some 20, suffixes = None\<rparr>) i) \<and>
   (\<exists>t. trace (snd (probeImagesInFolder bare ''Cot''
            \<lparr>maxIndex = None, missLimit = Some 0, suffixes = None\<rparr>)) =
          map (Attempt 1) [''jpg'', ''jpeg'', ''png'', ''webp''] @ t) \<and>
   consecutiveMisses (snd (probeImagesInFolder bare ''Cot''
     \<lparr>maxIndex = None, missLimit = Some 0, suffixes = None\<rparr>)) = 4 \<and>
   index (snd (probeImagesInFolder bare ''Cot''
     \<lparr>maxIndex = None, missLimit = Some 0, suffixes = None\<rparr>)) = 5 \<and>
   consecutiveMisses (snd (probeImagesInFolder bare ''Cot''
     \<lparr>maxIndex = Some 0, missLimit = Some 20, suffixes = None\<rparr>)) = 12 \<and>
   index (snd (probeImagesInFolder bare ''Cot''
     \<lparr>maxIndex = Some 0, missLimit = Some 20, suffixes = None\<rparr>)) = 13"
proof -
  let ?a = "\<lparr>maxIndex = None, missLimit = Some 0, suffixes = None\<rparr>"
  let ?b = "\<lparr>maxIndex = Some 0, missLimit = Some 20, suffixes = None\<rparr>"
  have h: "1 \<le> MAX_INDEX ?a" "4 \<le> MAX_INDEX ?a" "12 \<le> CONSECUTIVE_MISS_LIMIT ?b"
    "(None :: string list option) \<noteq> Some []"
    by (simp_all add: MAX_INDEX_def CONSECUTIVE_MISS_LIMIT_def)
  have s: "all_settle bare ?a" "all_settle bare ?b"
    by (auto simp: all_settle_def bare_def suffixes_of_def)
  have n: "\<forall>i. \<not> exists_at bare ''Cot'' (suffixes_of ?a) i"
    "\<forall>i. \<not> exists_at bare ''Cot'' (suffixes_of ?b) i"
    by (simp_all add: exists_at_def bare_def)
  have sf: "suffixes_of ?a = [''jpg'', ''jpeg'', ''png'', ''webp'']"
    by (simp add: suffixes_of_def)
  note a = zero_options_are_defaults [of bare "''Cot''" "Some 20" None None]
  from a h s(1) n(1)
  have "\<exists>t. trace (snd (probeImagesInFolder bare ''Cot'' ?a)) =
          map (Attempt 1) (suffixes_of ?a) @ t"
    and "consecutiveMisses (snd (probeImagesInFolder bare ''Cot'' ?a)) = 4"
    and "index (snd (probeImagesInFolder bare ''Cot'' ?a)) = 5"
    by blast+
  moreover from a h s(2) n(2)
  have "consecutiveMisses (snd (probeImagesInFolder bare ''Cot'' ?b)) = 12"
    and "index (snd (probeImagesInFolder bare ''Cot'' ?b)) = 13"
    by blast+
  ultimately show ?thesis using h s n unfolding sf by blast
qed

section \<open>The order of the requests of a probe\<close>

lemma filter_attempt_at_Attempt:
  "filter (attempt_at m) (map (Attempt i) sfxs) = (if m = i then map (Attempt i) sfxs else [])"
  by (induction sfxs) auto

lemma filter_settled_at_Attempt: "filter (settled_at m) (map (Attempt i) sfxs) = []"
  by (induction sfxs) auto

lemma filter_attempt_at_outcome: "filter (attempt_at m) (map (outcome e fld sfxs i) ps) = []"
  by (induction ps) (auto simp: outcome_def)

lemma filter_settled_at_outcome:
  "filter (settled_at m) (map (outcome e fld sfxs i) ps) =
     (if m = i then map (outcome e fld sfxs i) ps else [])"
  by (induction ps) (auto simp: outcome_def)

lemma below_none:
  "list_all (below i) t \<Longrightarrow> filter (attempt_at i) t = [] \<and> filter (settled_at i) t = []"
proof (induction t)
  case Nil
  show ?case by simp
next
  case (Cons ev t)
  then show ?case by (cases ev) auto
qed

lemma below_mono: "list_all (below i) t \<Longrightarrow> i \<le> j \<Longrightarrow> list_all (below j) t"
proof (induction t)
  case Nil
  show ?case by simp
next
  case (Cons ev t)
  then show ?case by (cases ev) auto
qed

lemma ordered_append_other:
  assumes "ordered n t" and "\<not> list_ex is_Attempt u"
  shows "ordered n (t @ u)"
  unfolding ordered_def
proof (intro allI impI)
  fix pre j sfx post m
  assume eq: "t @ u = pre @ Attempt j sfx # post" and m: "1 \<le> m \<and> m < j"
  from eq obtain us where
    "(t = pre @ us \<and> us @ u = Attempt j sfx # post) \<or> (t @ us = pre \<and> u = us @ Attempt j sfx # post)"
    by (auto simp: append_eq_append_conv2)
  then show "length (filter (attempt_at m) pre) = n \<and> length (filter (settled_at m) pre) = n"
  proof
    assume a: "t = pre @ us \<and> us @ u = Attempt j sfx # post"
    show ?thesis
    proof (cases us)
      case Nil
      with a have "u = Attempt j sfx # post" by simp
      with assms(2) show ?thesis by simp
    next
      case (Cons x xs)
      with a have "t = pre @ Attempt j sfx # xs" by simp
      with assms(1) m show ?thesis unfolding ordered_def by blast
    qed
  next
    assume "t @ us = pre \<and> u = us @ Attempt j sfx # post"
    with assms(2) show ?thesis by (simp add: list_ex_iff)
  qed
qed

lemma ordered_append_attempts:
  assumes "ordered n t" and "rounds_done n i t"
  shows "ordered n (t @ map (Attempt i) sfxs)"
  unfolding ordered_def
proof (intro allI impI)
  fix pre j sfx post m
  assume eq: "t @ map (Attempt i) sfxs = pre @ Attempt j sfx # post" and m: "1 \<le> m \<and> m < j"
  from eq obtain us where
    "(t = pre @ us \<and> us @ map (Attempt i) sfxs = Attempt j sfx # post) \<or>
     (t @ us = pre \<and> map (Attempt i) sfxs = us @ Attempt j sfx # post)"
    by (auto simp: append_eq_append_conv2)
  then show "length (filter (attempt_at m) pre) = n \<and> length (filter (settled_at m) pre) = n"
  proof
    assume a: "t = pre @ us \<and> us @ map (Attempt i) sfxs = Attempt j sfx # post"
    show ?thesis
    proof (cases us)
      case Nil
      with a have p: "pre = t" and q: "map (Attempt i) sfxs = Attempt j sfx # post"
        by simp_all
      have "Attempt j sfx \<in> set (map (Attempt i) sfxs)" unfolding q by simp
      then have "j = i" by auto
      with m p assms(2) show ?thesis by (simp add: rounds_done_def)
    next
      case (Cons x xs)
      with a have "t = pre @ Attempt j sfx # xs" by simp
      with assms(1) m show ?thesis unfolding ordered_def by blast
    qed
  next
    assume a: "t @ us = pre \<and> map (Attempt i) sfxs = us @ Attempt j sfx # post"
    then have "Attempt j sfx \<in> set (map (Attempt i) sfxs)" by simp
    then have j: "j = i" by auto
    from a have "us = take (length us) (map (Attempt i) sfxs)" by simp
    then have us: "us = map (Attempt i) (take (length us) sfxs)" by (simp add: take_map)
    have "filter (attempt_at m) us = []" and "filter (settled_at m) us = []"
      using m j by (subst us, simp add: filter_attempt_at_Attempt filter_settled_at_Attempt)+
    with a m j assms(2) show ?thesis by (auto simp: rounds_done_def)
  qed
qed

lemma outcome_not_Attempt: "\<not> list_ex is_Attempt (map (outcome e fld sfxs i) ps)"
  by (induction ps) (simp_all add: outcome_def)

lemma ordered_round:
  assumes "ordered n t" and "rounds_done n i t"
  shows "ordered n (t @ map (Attempt i) sfxs @ map (outcome e fld sfxs i) ps)"
proof -
  from assms have "ordered n (t @ map (Attempt i) sfxs)" by (rule ordered_append_attempts)
  then have "ordered n ((t @ map (Attempt i) sfxs) @ map (outcome e fld sfxs i) ps)"
    using outcome_not_Attempt by (rule ordered_append_other)
  then show ?thesis by simp
qed

lemma all_below_round:
  "list_all (below (i + 1)) (map (Attempt i) sfxs @ map (outcome e fld sfxs i) ps)"
  by (auto simp: list_all_iff outcome_def)

lemma rounds_done_round:
  assumes "rounds_done (length sfxs) i t" and "length ps = length sfxs"
  shows "rounds_done (length sfxs) (i + 1) (t @ map (Attempt i) sfxs @ map (outcome e fld sfxs i) ps)"
proof -
  from assms(1) have b: "list_all (below i) t" by (simp add: rounds_done_def)
  note z = below_none [OF b]
  from b have "list_all (below (i + 1)) t" by (rule below_mono) simp
  with all_below_round [of i sfxs e fld ps]
  have c: "list_all (below (i + 1)) (t @ map (Attempt i) sfxs @ map (outcome e fld sfxs i) ps)"
    by simp
  have "length (filter (attempt_at m) (t @ map (Attempt i) sfxs @ map (outcome e fld sfxs i) ps)) = length sfxs \<and>
        length (filter (settled_at m) (t @ map (Attempt i) sfxs @ map (outcome e fld sfxs i) ps)) = length sfxs"
    if "1 \<le> m \<and> m < i + 1" for m
  proof (cases "m = i")
    case True
    with z assms(2) show ?thesis
      by (simp add: filter_attempt_at_Attempt filter_settled_at_Attempt
            filter_attempt_at_outcome filter_settled_at_outcome)
  next
    case False
    with that assms(1) show ?thesis
      by (simp add: rounds_done_def filter_attempt_at_Attempt filter_settled_at_Attempt
            filter_attempt_at_outcome filter_settled_at_outcome)
  qed
  with c show ?thesis by (simp add: rounds_done_def)
qed

lemma tryNext_ordered:
  assumes "scheduled s = 0"
    and "ordered (length (suffixes_of opts)) (trace s)"
    and "rounds_done (length (suffixes_of opts)) (index s) (trace s)"
  shows "ordered (length (suffixes_of opts)) (trace (snd (tryNext e fld opts s)))"
  using assms
proof (induction s rule: tryNext_induct [where e = e and fld = fld and opts = opts])
  case (stop s)
  have "\<not> list_ex is_Attempt [Resolve (found s)]" by simp
  with stop.prems(1) have "ordered (length (suffixes_of opts)) (trace s @ [Resolve (found s)])"
    by (rule ordered_append_other)
  then show ?case by (simp add: tryNext_stop [OF stop.hyps(2)])
next
  case (empty s)
  have "\<not> list_ex is_Attempt [Resolve (found s)]" by simp
  with empty.prems(1) have "ordered (length (suffixes_of opts)) (trace s @ [Resolve (found s)])"
    by (rule ordered_append_other)
  then show ?case by (simp add: tryNext_empty [OF empty.hyps(2,3)])
next
  case (hang s)
  then have "length (settling e (length (suffixes_of opts)) (index s)) \<noteq> length (suffixes_of opts)"
    by (simp add: complete_def)
  note tr = round_incomplete(2) [OF this, of fld]
  from hang.prems show ?case
    by (simp add: tryNext_hang [OF hang.hyps(2,3,4,1)] tr ordered_round)
next
  case (step s)
  note nf = nxt_fields [OF step.hyps(4,3), of fld]
  from step.hyps(4) have len: "length (settling e (length (suffixes_of opts)) (index s)) = length (suffixes_of opts)"
    by (simp add: complete_def)
  from step.prems have "ordered (length (suffixes_of opts)) (trace (nxt e fld opts s))"
    by (simp add: nf ordered_round)
  moreover from step.prems(2) len
  have "rounds_done (length (suffixes_of opts)) (index (nxt e fld opts s)) (trace (nxt e fld opts s))"
    by (simp add: nf rounds_done_round)
  ultimately have "ordered (length (suffixes_of opts)) (trace (snd (tryNext e fld opts (nxt e fld opts s))))"
    by (rule step.IH)
  then show ?case by (simp add: tryNext_step [OF step.hyps(2,3,4)])
qed

lemma round_found:
  "found (tryNext_round e fld sfxs s) =
     found s @ winner fld sfxs (index s) (hits e fld sfxs (index s) (settling e (length sfxs) (index s)))"
proof (cases "length (settling e (length sfxs) (index s)) = length sfxs \<and> sfxs \<noteq> []")
  case True
  then show ?thesis by (simp add: round_complete(4))
next
  case False
  let ?s0 = "s\<lparr>loadedThisIndex := False, remaining := int (length sfxs),
               trace := trace s @ map (Attempt (index s)) sfxs\<rparr>"
  let ?ps = "settling e (length sfxs) (index s)"
  show ?thesis
  proof (cases "sfxs = []")
    case True
    then show ?thesis by (simp add: tryNext_round_def settling_def hits_def winner_def)
  next
    case ne: False
    with False length_settling [of e "length sfxs" "index s"]
    have "int (length ?ps) < remaining ?s0" by simp
    from fold_settle_early [OF this, of e fld "index s" sfxs]
    show ?thesis by (simp add: tryNext_round_def)
  qed
qed

lemma increasing_round:
  assumes "increasing fld i fs"
  shows "increasing fld (i + 1) (fs @ winner fld sfxs i hs)"
proof -
  from assms obtain js where js: "fs = map (entry fld) js" "sorted_wrt (<) (map fst js)"
    "\<forall>j \<in> set (map fst js). j < i"
    by (auto simp: increasing_def)
  show ?thesis
  proof (cases hs)
    case Nil
    with js have "fs @ winner fld sfxs i hs = map (entry fld) js" by (simp add: winner_def)
    moreover from js(3) have "\<forall>j \<in> set (map fst js). j < i + 1" by auto
    ultimately show ?thesis using js(2) unfolding increasing_def by blast
  next
    case (Cons p ps)
    with js have "fs @ winner fld sfxs i hs = map (entry fld) (js @ [(i, sfxs ! p)])"
      by (simp add: winner_def entry_def)
    moreover from js(2,3) have "sorted_wrt (<) (map fst (js @ [(i, sfxs ! p)]))"
      by (simp add: sorted_wrt_append)
    moreover from js(3) have "\<forall>j \<in> set (map fst (js @ [(i, sfxs ! p)])). j < i + 1" by auto
    ultimately show ?thesis unfolding increasing_def by blast
  qed
qed

lemma tryNext_increasing:
  assumes "scheduled s = 0" and "increasing fld (index s) (found s)"
  shows "\<exists>i. increasing fld i (found (snd (tryNext e fld opts s)))"
  using assms
proof (induction s rule: tryNext_induct [where e = e and fld = fld and opts = opts])
  case (stop s)
  then show ?case by (auto simp: tryNext_stop)
next
  case (empty s)
  then show ?case by (auto simp: tryNext_empty)
next
  case (hang s)
  from increasing_round [OF hang.prems] show ?case
    by (auto simp: tryNext_hang [OF hang.hyps(2,3,4,1)] round_found)
next
  case (step s)
  note nf = nxt_fields [OF step.hyps(4,3), of fld]
  from increasing_round [OF step.prems]
  have "increasing fld (index (nxt e fld opts s)) (found (nxt e fld opts s))"
    by (simp add: nf)
  from step.IH [OF this] show ?case
    by (simp add: tryNext_step [OF step.hyps(2,3,4)])
qed

text \<open>
  Claim C9. In the trace of a probe, whatever the environment does, each request for an
  index \<open>n + 1\<close> (with \<open>n\<close> at least 1) comes after all the requests of index \<open>n\<close>, one for
  each suffix, have been issued and as many callbacks (\<open>onload\<close> or \<open>onerror\<close>) of index \<open>n\<close>
  have been entered; and the array \<open>found\<close> consists of entries for strictly increasing
  indices.
\<close>

theorem probe_in_index_order:
  "(\<forall>pre n sfx post.
      trace (snd (probeImagesInFolder e fld opts)) = pre @ Attempt (n + 1) sfx # post \<and> 1 \<le> n \<longrightarrow>
        length (filter (attempt_at n) pre) = length (suffixes_of opts) \<and>
        length (filter (settled_at n) pre) = length (suffixes_of opts)) \<and>
   (\<exists>js. found (snd (probeImagesInFolder e fld opts)) = map (entry fld) js \<and>
         sorted_wrt (<) (map fst js))"
proof -
  have sch: "scheduled start = 0" by (simp add: start_def)
  have "ordered (length (suffixes_of opts)) (trace start)"
    by (simp add: ordered_def start_def)
  moreover have "rounds_done (length (suffixes_of opts)) (index start) (trace start)"
    by (auto simp: rounds_done_def start_def)
  ultimately have o: "ordered (length (suffixes_of opts)) (trace (snd (tryNext e fld opts start)))"
    by (rule tryNext_ordered [OF sch])
  have "increasing fld (index start) (found start)"
    by (simp add: increasing_def start_def)
  from tryNext_increasing [OF sch this, of e opts]
  have "\<exists>js. found (snd (tryNext e fld opts start)) = map (entry fld) js \<and> sorted_wrt (<) (map fst js)"
    unfolding increasing_def by blast
  moreover have "length (filter (attempt_at n) pre) = length (suffixes_of opts) \<and>
        length (filter (settled_at n) pre) = length (suffixes_of opts)"
    if "trace (snd (tryNext e fld opts start)) = pre @ Attempt (n + 1) sfx # post \<and> 1 \<le> n"
    for pre n sfx post
  proof -
    from that have "1 \<le> n \<and> n < n + 1" by simp
    with o that show ?thesis unfolding ordered_def by blast
  qed
  ultimately show ?thesis by (simp add: probe_start)
qed

text \<open>
  Claim C9 on the folder with \<open>1.jpg\<close>, \<open>2.jpg\<close> and \<open>2.png\<close>, with a maximal index of 2: the
  first request of index 2 comes after the two requests and the two callbacks of index 1.
\<close>

theorem probe_in_index_order_witness:
  "trace (snd (probeImagesInFolder shelf ''Chair'' small)) =
     [Attempt 1 ''jpg'', Attempt 1 ''png'', Onerror 1 ''png'', Onload 1 ''jpg''] @
     Attempt (1 + 1) ''jpg'' #
     [Attempt 2 ''png'', Onload 2 ''png'', Onload 2 ''jpg'',
      Resolve [\<lparr>file' = ''Images/Products/Chair/1.jpg'', alt = []\<rparr>,
               \<lparr>file' = ''Images/Products/Chair/2.png'', alt = []\<rparr>]] \<and>
   (1::int) \<le> 1 \<and>
   length (filter (attempt_at 1)
     [Attempt 1 ''jpg'', Attempt 1 ''png'', Onerror 1 ''png'', Onload 1 ''jpg'']) =
     length (suffixes_of small) \<and>
   length (filter (settled_at 1)
     [Attempt 1 ''jpg'', Attempt 1 ''png'', Onerror 1 ''png'', Onload 1 ''jpg'']) =
     length (suffixes_of small) \<and>
   length (suffixes_of small) = 2 \<and>
   (\<exists>js. found (snd (probeImagesInFolder shelf ''Chair'' small)) = map (entry ''Chair'') js \<and>
         sorted_wrt (<) (map fst js))"
proof -
  have tr: "trace (snd (probeImagesInFolder shelf ''Chair'' small)) =
     [Attempt 1 ''jpg'', Attempt 1 ''png'', Onerror 1 ''png'', Onload 1 ''jpg''] @
     Attempt (1 + 1) ''jpg'' #
     [Attempt 2 ''png'', Onload 2 ''png'', Onload 2 ''jpg'',
      Resolve [\<lparr>file' = ''Images/Products/Chair/1.jpg'', alt = []\<rparr>,
               \<lparr>file' = ''Images/Products/Chair/2.png'', alt = []\<rparr>]]"
    by code_simp
  have two: "length (suffixes_of small) = 2"
    by (simp add: small_def suffixes_of_def)
  from probe_in_index_order [of shelf "''Chair''" small] tr two
  show ?thesis by blast
qed

end
